theory Spec2Isabelle
  imports Main "HOL-Library.Multiset"
begin

section \<open>Data model of the grid engine (src/utils/gridHelpers.ts)\<close>

text \<open>
  A \<open>GridZone\<close> is the source's \<open>{x, y, w, h}\<close>; a \<open>GridItemLayout\<close> adds the id
  \<open>i\<close>.  The fields are written \<open>gx, gy, gw, gh, gi\<close>.  The optional fields of the
  source's layout items (minW, minH, maxW, maxH, static, ...) are never read or written by
  the grid helpers and are carried over unchanged by every object spread, so they are
  left out.  Coordinates and sizes are integers.
\<close>

record GridZone =
  gx :: int
  gy :: int
  gw :: int
  gh :: int

record GridItemLayout = GridZone +
  gi :: string

text \<open>
  The occupancy grid.  \<open>occ_grid occ row col\<close> is the truth value of the source's
  \<open>occupancy.grid[row]?.[col]\<close>: an absent row or an absent column reads as falsy.
\<close>

record OccupancyGrid =
  occ_grid :: "int \<Rightarrow> int \<Rightarrow> bool"
  occ_cols :: int
  occ_rows :: int

record PushResult =
  canPush :: bool
  newLayouts :: "GridItemLayout list"
  pushedWidgets :: "string list"

section \<open>Occupancy grid\<close>

text \<open>\<open>if (occupancy.grid[row])\<close>: the row array exists.\<close>

definition rowExists :: "OccupancyGrid \<Rightarrow> int \<Rightarrow> bool" where
  "rowExists occ row \<longleftrightarrow> 0 \<le> row \<and> row < occ_rows occ"

text \<open>\<open>occupancy.grid[row][col] = v\<close>.\<close>

definition setCell :: "OccupancyGrid \<Rightarrow> int \<Rightarrow> int \<Rightarrow> bool \<Rightarrow> OccupancyGrid" where
  "setCell occ row col v =
     occ\<lparr>occ_grid := (occ_grid occ)(row := (occ_grid occ row)(col := v))\<rparr>"

text \<open>
  The marking loop that the source repeats inline:
  \<^verbatim>\<open>for (row = rowLo; row < rowHi; row++)
    for (col = colLo; col < colHi; col++)
      if (occupancy.grid[row]) occupancy.grid[row][col] = v;\<close>
\<close>

definition markCells :: "OccupancyGrid \<Rightarrow> int \<Rightarrow> int \<Rightarrow> int \<Rightarrow> int \<Rightarrow> bool \<Rightarrow> OccupancyGrid" where
  "markCells occ rowLo rowHi colLo colHi v =
     fold (\<lambda>row o1.
             fold (\<lambda>col o2. if rowExists o2 row then setCell o2 row col v else o2)
                  [colLo..colHi - 1] o1)
          [rowLo..rowHi - 1] occ"

text \<open>The same loop with its upper limits clipped to the grid, as most call sites have it.\<close>

definition markZone :: "OccupancyGrid \<Rightarrow> int \<Rightarrow> int \<Rightarrow> int \<Rightarrow> int \<Rightarrow> int \<Rightarrow> int \<Rightarrow> bool \<Rightarrow> OccupancyGrid" where
  "markZone occ x y w h cols maxRows v =
     markCells occ y (min (y + h) maxRows) x (min (x + w) cols) v"

text \<open>
  \<open>createOccupancyGrid\<close>: \<open>maxRows\<close> rows of \<open>cols\<close> cells, all false, then every layout
  other than \<open>excludeId\<close> is filled in (its loop also requires \<open>row >= 0 && col >= 0\<close>).
  \<open>new Array(cols)\<close> needs \<open>cols\<close> non-negative.
\<close>

definition emptyGrid :: "int \<Rightarrow> int \<Rightarrow> OccupancyGrid" where
  "emptyGrid cols maxRows = \<lparr>occ_grid = (\<lambda>row col. False), occ_cols = cols, occ_rows = maxRows\<rparr>"

definition markLayout :: "int \<Rightarrow> int \<Rightarrow> GridItemLayout \<Rightarrow> OccupancyGrid \<Rightarrow> OccupancyGrid" where
  "markLayout cols maxRows layout occ =
     fold (\<lambda>row o1.
             fold (\<lambda>col o2. if row \<ge> 0 \<and> col \<ge> 0 \<and> rowExists o2 row
                             then setCell o2 row col True else o2)
                  [gx layout..min (gx layout + gw layout) cols - 1] o1)
          [gy layout..min (gy layout + gh layout) maxRows - 1] occ"

definition createOccupancyGrid :: "GridItemLayout list \<Rightarrow> int \<Rightarrow> int \<Rightarrow> string option \<Rightarrow> OccupancyGrid" where
  "createOccupancyGrid layouts cols maxRows excludeId =
     fold (\<lambda>layout occ. if Some (gi layout) = excludeId then occ
                         else markLayout cols maxRows layout occ)
          layouts (emptyGrid cols maxRows)"

section \<open>Placement finder\<close>

definition canFitAt :: "OccupancyGrid \<Rightarrow> int \<Rightarrow> int \<Rightarrow> int \<Rightarrow> int \<Rightarrow> bool" where
  "canFitAt occupancy x y w h =
     (if x < 0 \<or> y < 0 \<or> x + w > occ_cols occupancy \<or> y + h > occ_rows occupancy then False
      else \<not> list_ex (\<lambda>row. list_ex (\<lambda>col. occ_grid occupancy row col) [x..x + w - 1])
                      [y..y + h - 1])"

text \<open>The first element of a scan for which the body returns a value.\<close>

fun firstSome :: "('a \<Rightarrow> 'b option) \<Rightarrow> 'a list \<Rightarrow> 'b option" where
  "firstSome f [] = None"
| "firstSome f (a # as) = (case f a of Some b \<Rightarrow> Some b | None \<Rightarrow> firstSome f as)"

text \<open>A position \<open>{x, y}\<close> is the pair \<open>(x, y)\<close>; \<open>null\<close> is \<open>None\<close>.\<close>

definition findFirstFitPosition :: "OccupancyGrid \<Rightarrow> int \<Rightarrow> int \<Rightarrow> (int \<times> int) option" where
  "findFirstFitPosition occupancy widgetW widgetH =
     firstSome (\<lambda>y. firstSome (\<lambda>x. if canFitAt occupancy x y widgetW widgetH
                                    then Some (x, y) else None)
                               [0..occ_cols occupancy - widgetW])
               [0..occ_rows occupancy - widgetH]"

section \<open>Push resolver\<close>

definition zonesOverlap :: "GridZone \<Rightarrow> GridZone \<Rightarrow> bool" where
  "zonesOverlap a b \<longleftrightarrow>
     \<not> (gx a \<ge> gx b + gw b \<or> gx a + gw a \<le> gx b \<or> gy a \<ge> gy b + gh b \<or> gy a + gh a \<le> gy b)"

definition zoneOf :: "GridItemLayout \<Rightarrow> GridZone" where
  "zoneOf l = \<lparr>gx = gx l, gy = gy l, gw = gw l, gh = gh l\<rparr>"

definition tryPushInDirection ::
  "GridItemLayout list \<Rightarrow> string \<Rightarrow> int \<Rightarrow> int \<Rightarrow> GridZone \<Rightarrow> int \<Rightarrow> int \<Rightarrow> string option
   \<Rightarrow> GridItemLayout list option" where
  "tryPushInDirection layouts widgetId dx dy avoidZone cols maxRows excludeId =
     (case find (\<lambda>l. gi l = widgetId) layouts of
        None \<Rightarrow> None
      | Some widget \<Rightarrow>
          let newX = gx widget + dx; newY = gy widget + dy in
          if newX < 0 \<or> newX + gw widget > cols \<or> newY < 0 \<or> newY + gh widget > maxRows then None
          else if zonesOverlap \<lparr>gx = newX, gy = newY, gw = gw widget, gh = gh widget\<rparr> avoidZone
          then None
          else
            let occupancy =
                  createOccupancyGrid
                    (filter (\<lambda>l. gi l \<noteq> widgetId \<and> Some (gi l) \<noteq> excludeId) layouts)
                    cols maxRows None;
                occupancy' =
                  markZone occupancy (gx avoidZone) (gy avoidZone) (gw avoidZone) (gh avoidZone)
                    cols maxRows True
            in if canFitAt occupancy' newX newY (gw widget) (gh widget)
               then Some (map (\<lambda>l. if gi l = widgetId then l\<lparr>gx := newX, gy := newY\<rparr> else l)
                              layouts)
               else None)"

text \<open>Push priority: right, down, left, up.\<close>

definition pushDirections :: "GridItemLayout \<Rightarrow> int \<Rightarrow> int \<Rightarrow> (int \<times> int) list" where
  "pushDirections widget targetW targetH =
     [(targetW, 0), (0, targetH), (- gw widget, 0), (0, - gh widget)]"

text \<open>
  The loop over the overlapping widgets, threading \<open>workingLayouts\<close> and \<open>pushedWidgets\<close>;
  \<open>None\<close> is the early return taken when a widget was not pushed.
\<close>

fun pushEach ::
  "GridItemLayout list \<Rightarrow> int \<Rightarrow> int \<Rightarrow> GridZone \<Rightarrow> int \<Rightarrow> int \<Rightarrow> string option
   \<Rightarrow> GridItemLayout list \<Rightarrow> string list \<Rightarrow> (GridItemLayout list \<times> string list) option" where
  "pushEach [] targetW targetH targetZone cols maxRows excludeId workingLayouts pushed =
     Some (workingLayouts, pushed)"
| "pushEach (widget # rest) targetW targetH targetZone cols maxRows excludeId workingLayouts pushed =
     (case firstSome (\<lambda>(dx, dy). tryPushInDirection workingLayouts (gi widget) dx dy targetZone
                                    cols maxRows excludeId)
                     (pushDirections widget targetW targetH) of
        None \<Rightarrow> None
      | Some result \<Rightarrow>
          pushEach rest targetW targetH targetZone cols maxRows excludeId result
            (pushed @ [gi widget]))"

definition overlappingWidgets :: "GridItemLayout list \<Rightarrow> GridZone \<Rightarrow> string option \<Rightarrow> GridItemLayout list" where
  "overlappingWidgets layouts targetZone excludeId =
     filter (\<lambda>l. if Some (gi l) = excludeId then False else zonesOverlap (zoneOf l) targetZone)
            layouts"

definition calculatePush ::
  "GridItemLayout list \<Rightarrow> int \<Rightarrow> int \<Rightarrow> int \<Rightarrow> int \<Rightarrow> int \<Rightarrow> int \<Rightarrow> string option \<Rightarrow> PushResult" where
  "calculatePush layouts targetX targetY targetW targetH cols maxRows excludeId =
     (let targetZone = \<lparr>gx = targetX, gy = targetY, gw = targetW, gh = targetH\<rparr>;
          overlapping = overlappingWidgets layouts targetZone excludeId
      in if length overlapping = 0
         then \<lparr>canPush = True, newLayouts = layouts, pushedWidgets = []\<rparr>
         else (case pushEach overlapping targetW targetH targetZone cols maxRows excludeId
                       layouts [] of
                 None \<Rightarrow> \<lparr>canPush = False, newLayouts = layouts, pushedWidgets = []\<rparr>
               | Some (workingLayouts, pushed) \<Rightarrow>
                   \<lparr>canPush = True, newLayouts = workingLayouts, pushedWidgets = pushed\<rparr>))"

section \<open>Sorting\<close>

text \<open>
  \<open>Array.prototype.sort\<close> is stable, and every comparator of the source is a consistent
  ordering, so the result is the stable arrangement computed here by insertion: an element
  goes before the first later element that it does not follow.
\<close>

fun insertBy :: "('a \<Rightarrow> 'a \<Rightarrow> int) \<Rightarrow> 'a \<Rightarrow> 'a list \<Rightarrow> 'a list" where
  "insertBy cmp a [] = [a]"
| "insertBy cmp a (b # bs) = (if cmp a b \<le> 0 then a # b # bs else b # insertBy cmp a bs)"

definition sortBy :: "('a \<Rightarrow> 'a \<Rightarrow> int) \<Rightarrow> 'a list \<Rightarrow> 'a list" where
  "sortBy cmp xs = foldr (insertBy cmp) xs []"

text \<open>The comparators: by position (top-left first), and the orders of the repack strategies.\<close>

definition byPosition :: "GridItemLayout \<Rightarrow> GridItemLayout \<Rightarrow> int" where
  "byPosition a b = (if gy a \<noteq> gy b then gy a - gy b else gx a - gx b)"

definition byAreaDesc :: "GridItemLayout \<Rightarrow> GridItemLayout \<Rightarrow> int" where
  "byAreaDesc a b = gw b * gh b - gw a * gh a"

definition byWidthDesc :: "GridItemLayout \<Rightarrow> GridItemLayout \<Rightarrow> int" where
  "byWidthDesc a b = (if gw b - gw a \<noteq> 0 then gw b - gw a else gh b - gh a)"

definition byHeightDesc :: "GridItemLayout \<Rightarrow> GridItemLayout \<Rightarrow> int" where
  "byHeightDesc a b = (if gh b - gh a \<noteq> 0 then gh b - gh a else gw b - gw a)"

text \<open>\<open>cols % a.w === 0\<close>; for \<open>a.w = 0\<close> the remainder is NaN and the test is false.\<close>

definition fillsRow :: "int \<Rightarrow> GridItemLayout \<Rightarrow> int" where
  "fillsRow cols a = (if gw a \<noteq> 0 \<and> cols mod gw a = 0 then 1 else 0)"

definition byRowFill :: "int \<Rightarrow> GridItemLayout \<Rightarrow> GridItemLayout \<Rightarrow> int" where
  "byRowFill cols a b =
     (if fillsRow cols a \<noteq> fillsRow cols b then fillsRow cols b - fillsRow cols a
      else gw b * gh b - gw a * gh a)"

section \<open>Nearest position and viewport adjustment\<close>

definition clampToViewport :: "int \<Rightarrow> int \<Rightarrow> int \<Rightarrow> int \<Rightarrow> int \<Rightarrow> int \<Rightarrow> int \<times> int" where
  "clampToViewport x y w h cols maxRows =
     (let clampedX = (if x < 0 then 0 else x);
          clampedY = (if y < 0 then 0 else y);
          clampedX' = (if clampedX + w > cols then max 0 (cols - w) else clampedX);
          clampedY' = (if clampedY + h > maxRows then max 0 (maxRows - h) else clampedY)
      in (clampedX', clampedY'))"

text \<open>
  The search in square rings of growing distance around the target, rows top to bottom and
  columns left to right inside a ring, falling back to the first fit.
\<close>

definition findBestPositionNear ::
  "OccupancyGrid \<Rightarrow> int \<Rightarrow> int \<Rightarrow> int \<Rightarrow> int \<Rightarrow> int \<Rightarrow> int \<Rightarrow> (int \<times> int) option" where
  "findBestPositionNear occupancy targetX targetY widgetW widgetH cols maxRows =
     (if canFitAt occupancy targetX targetY widgetW widgetH then Some (targetX, targetY)
      else
        (case firstSome (\<lambda>distance.
                firstSome (\<lambda>dy.
                  firstSome (\<lambda>dx.
                    if \<bar>dx\<bar> \<noteq> distance \<and> \<bar>dy\<bar> \<noteq> distance then None
                    else
                      let x = targetX + dx; y = targetY + dy in
                      if x < 0 \<or> y < 0 \<or> x + widgetW > cols \<or> y + widgetH > maxRows then None
                      else if canFitAt occupancy x y widgetW widgetH then Some (x, y)
                      else None)
                    [- distance..distance])
                  [- distance..distance])
                [1..max cols maxRows - 1] of
           Some pos \<Rightarrow> Some pos
         | None \<Rightarrow> findFirstFitPosition occupancy widgetW widgetH))"

text \<open>The exported twin has the same body.\<close>

definition findBestPositionNearExported ::
  "OccupancyGrid \<Rightarrow> int \<Rightarrow> int \<Rightarrow> int \<Rightarrow> int \<Rightarrow> int \<Rightarrow> int \<Rightarrow> (int \<times> int) option" where
  "findBestPositionNearExported occupancy targetX targetY widgetW widgetH cols maxRows =
     (if canFitAt occupancy targetX targetY widgetW widgetH then Some (targetX, targetY)
      else
        (case firstSome (\<lambda>distance.
                firstSome (\<lambda>dy.
                  firstSome (\<lambda>dx.
                    if \<bar>dx\<bar> \<noteq> distance \<and> \<bar>dy\<bar> \<noteq> distance then None
                    else
                      let x = targetX + dx; y = targetY + dy in
                      if x < 0 \<or> y < 0 \<or> x + widgetW > cols \<or> y + widgetH > maxRows then None
                      else if canFitAt occupancy x y widgetW widgetH then Some (x, y)
                      else None)
                    [- distance..distance])
                  [- distance..distance])
                [1..max cols maxRows - 1] of
           Some pos \<Rightarrow> Some pos
         | None \<Rightarrow> findFirstFitPosition occupancy widgetW widgetH))"

text \<open>
  One round of the loop of \<open>adjustLayoutsToViewport\<close>, on the pair of the layouts adjusted
  so far and the occupancy grid: the clamped position if it is free, else the nearest free
  position, else any free position, else the clamped position all the same.
\<close>

definition adjustStep ::
  "int \<Rightarrow> int \<Rightarrow> GridItemLayout \<Rightarrow> GridItemLayout list \<times> OccupancyGrid
   \<Rightarrow> GridItemLayout list \<times> OccupancyGrid" where
  "adjustStep cols maxRows layout st =
     (let (adjustedLayouts, occupancy) = st;
          (x, y) = clampToViewport (gx layout) (gy layout) (gw layout) (gh layout) cols maxRows
      in if canFitAt occupancy x y (gw layout) (gh layout)
         then (adjustedLayouts @ [layout\<lparr>gx := x, gy := y\<rparr>],
               markZone occupancy x y (gw layout) (gh layout) cols maxRows True)
         else
           (case findBestPositionNearExported occupancy x y (gw layout) (gh layout) cols maxRows of
              Some (nx, ny) \<Rightarrow>
                (adjustedLayouts @ [layout\<lparr>gx := nx, gy := ny\<rparr>],
                 markZone occupancy nx ny (gw layout) (gh layout) cols maxRows True)
            | None \<Rightarrow>
                (case findFirstFitPosition occupancy (gw layout) (gh layout) of
                   Some (ax, ay) \<Rightarrow>
                     (adjustedLayouts @ [layout\<lparr>gx := ax, gy := ay\<rparr>],
                      markZone occupancy ax ay (gw layout) (gh layout) cols maxRows True)
                 | None \<Rightarrow> (adjustedLayouts @ [layout\<lparr>gx := x, gy := y\<rparr>], occupancy))))"

definition adjustLayoutsToViewport :: "GridItemLayout list \<Rightarrow> int \<Rightarrow> int \<Rightarrow> GridItemLayout list" where
  "adjustLayoutsToViewport layouts cols maxRows =
     (let sortedLayouts = sortBy byPosition layouts;
          (adjustedLayouts, occupancy) =
             fold (adjustStep cols maxRows) sortedLayouts
                  ([], createOccupancyGrid [] cols maxRows None)
      in map (\<lambda>layout.
                let (cx, cy) = clampToViewport (gx layout) (gy layout) (gw layout) (gh layout)
                                 cols maxRows
                in layout\<lparr>gx := cx, gy := cy\<rparr>)
             adjustedLayouts)"

section \<open>Repack optimizer\<close>

text \<open>
  Placing one widget at the first position of the row-by-row scan where it fits; a widget
  that fits nowhere keeps its position and marks nothing.  The loop is written twice in the
  source, in \<open>repackWidgets\<close> and in \<open>repackWidgetsOptimal\<close>.
\<close>

definition packStep ::
  "int \<Rightarrow> int \<Rightarrow> GridItemLayout \<Rightarrow> GridItemLayout list \<times> OccupancyGrid
   \<Rightarrow> GridItemLayout list \<times> OccupancyGrid" where
  "packStep cols maxRows widget st =
     (let (packed, occupancy) = st in
      case firstSome (\<lambda>y. firstSome (\<lambda>x. if canFitAt occupancy x y (gw widget) (gh widget)
                                          then Some (x, y) else None)
                                     [0..cols - gw widget])
                     [0..maxRows - gh widget] of
        Some (x, y) \<Rightarrow>
          (packed @ [widget\<lparr>gx := x, gy := y\<rparr>],
           markCells occupancy y (y + gh widget) x (x + gw widget) True)
      | None \<Rightarrow> (packed @ [widget], occupancy))"

definition packInOrder ::
  "GridItemLayout list \<Rightarrow> int \<Rightarrow> int \<Rightarrow> GridItemLayout list \<times> OccupancyGrid" where
  "packInOrder sortedLayouts cols maxRows =
     fold (packStep cols maxRows) sortedLayouts ([], createOccupancyGrid [] cols maxRows None)"

definition repackWidgets :: "GridItemLayout list \<Rightarrow> int \<Rightarrow> int \<Rightarrow> GridItemLayout list" where
  "repackWidgets layouts cols maxRows =
     (if length layouts = 0 then layouts
      else fst (packInOrder (sortBy byPosition layouts) cols maxRows))"

definition strategies :: "GridItemLayout list \<Rightarrow> int \<Rightarrow> GridItemLayout list list" where
  "strategies layouts cols =
     [sortBy byAreaDesc layouts, sortBy byWidthDesc layouts, sortBy byHeightDesc layouts,
      sortBy byPosition layouts, sortBy (byRowFill cols) layouts]"

text \<open>\<open>packed.length > 0 ? Math.max(...packed.map(w => w.y + w.h)) : 0\<close>.\<close>

definition verticalExtent :: "GridItemLayout list \<Rightarrow> int" where
  "verticalExtent packed =
     (case map (\<lambda>w. gy w + gh w) packed of [] \<Rightarrow> 0 | a # as \<Rightarrow> fold max as a)"

definition emptySpaceAtTop :: "OccupancyGrid \<Rightarrow> int \<Rightarrow> int \<Rightarrow> int \<Rightarrow> int" where
  "emptySpaceAtTop occupancy maxY cols maxRows =
     fold (\<lambda>y n. fold (\<lambda>x m. if \<not> occ_grid occupancy y x then m + 1 else m) [0..cols - 1] n)
          [0..min maxY maxRows - 1] 0"

text \<open>
  One strategy against the best so far: \<open>(bestPacking, bestMaxY, bestEmptySpaceAtTop)\<close>,
  where \<open>bestMaxY = None\<close> is the initial \<open>Infinity\<close>.
\<close>

definition considerStrategy ::
  "int \<Rightarrow> int \<Rightarrow> GridItemLayout list \<Rightarrow> GridItemLayout list \<times> int option \<times> int
   \<Rightarrow> GridItemLayout list \<times> int option \<times> int" where
  "considerStrategy cols maxRows sortedLayouts best =
     (let (bestPacking, bestMaxY, bestEmptySpaceAtTop) = best;
          (packed, occupancy) = packInOrder sortedLayouts cols maxRows;
          maxY = verticalExtent packed;
          emptySpace = emptySpaceAtTop occupancy maxY cols maxRows
      in if (case bestMaxY of None \<Rightarrow> True | Some b \<Rightarrow> maxY < b)
            \<or> (bestMaxY = Some maxY \<and> emptySpace > bestEmptySpaceAtTop)
         then (packed, Some maxY, emptySpace)
         else (bestPacking, bestMaxY, bestEmptySpaceAtTop))"

definition repackWidgetsOptimal :: "GridItemLayout list \<Rightarrow> int \<Rightarrow> int \<Rightarrow> GridItemLayout list" where
  "repackWidgetsOptimal layouts cols maxRows =
     (if length layouts = 0 then layouts
      else fst (fold (considerStrategy cols maxRows) (strategies layouts cols)
                     (layouts, None, - 1)))"

section \<open>Auto-adjust controller\<close>

text \<open>
  The caller's table of minimum sizes, \<open>(minW, minH)\<close> per widget id;
  \<open>widgetMinSizes[id] || { minW: 2, minH: 2 }\<close>.
\<close>

type_synonym WidgetMinSizes = "string \<Rightarrow> (int \<times> int) option"

definition minSizeOf :: "WidgetMinSizes \<Rightarrow> string \<Rightarrow> int \<times> int" where
  "minSizeOf widgetMinSizes widgetId =
     (case widgetMinSizes widgetId of Some m \<Rightarrow> m | None \<Rightarrow> (2, 2))"

record AutoAdjustResult =
  canAdd :: bool
  adjustedLayouts :: "GridItemLayout list"
  newWidgetPosition :: "(int \<times> int) option"
  shrunkWidgets :: "string list"

datatype ShrinkType = ShrinkW | ShrinkH

record ShrinkCandidate =
  candId :: string
  shrinkType :: ShrinkType
  excessSpace :: int
  currentSize :: int

text \<open>The body of the loop that selects \<open>bestCandidate\<close>.\<close>

definition considerCandidate ::
  "WidgetMinSizes \<Rightarrow> GridItemLayout \<Rightarrow> ShrinkCandidate option \<Rightarrow> ShrinkCandidate option" where
  "considerCandidate widgetMinSizes layout bestCandidate =
     (let (minW, minH) = minSizeOf widgetMinSizes (gi layout);
          excessW = gw layout - minW;
          excessH = gh layout - minH;
          size = gw layout * gh layout;
          priority = size + (excessW + excessH);
          beats = (\<lambda>best. case best of None \<Rightarrow> True
                                      | Some c \<Rightarrow> priority > excessSpace c + currentSize c);
          best1 = (if excessW > 0 \<and> beats bestCandidate
                   then Some \<lparr>candId = gi layout, shrinkType = ShrinkW,
                              excessSpace = excessW + excessH, currentSize = size\<rparr>
                   else bestCandidate)
      in if excessH > 0 \<and> beats best1
         then Some \<lparr>candId = gi layout, shrinkType = ShrinkH,
                    excessSpace = excessW + excessH, currentSize = size\<rparr>
         else best1)"

definition findBestCandidate :: "WidgetMinSizes \<Rightarrow> GridItemLayout list \<Rightarrow> ShrinkCandidate option" where
  "findBestCandidate widgetMinSizes workingLayouts =
     fold (considerCandidate widgetMinSizes) workingLayouts None"

text \<open>\<open>shrunkWidgetIds.add(id)\<close> on a set that keeps insertion order.\<close>

definition addId :: "string list \<Rightarrow> string \<Rightarrow> string list" where
  "addId ids widgetId = (if widgetId \<in> set ids then ids else ids @ [widgetId])"

text \<open>Shrinking the selected widget by one unit.\<close>

definition shrinkByOne ::
  "ShrinkCandidate \<Rightarrow> GridItemLayout list \<Rightarrow> string list \<Rightarrow> GridItemLayout list \<times> string list" where
  "shrinkByOne c workingLayouts shrunkWidgetIds =
     (map (\<lambda>l. if gi l = candId c
                then (if shrinkType c = ShrinkW then l\<lparr>gw := gw l - 1\<rparr> else l\<lparr>gh := gh l - 1\<rparr>)
                else l)
          workingLayouts,
      if \<exists>l\<in>set workingLayouts. gi l = candId c then addId shrunkWidgetIds (candId c)
      else shrunkWidgetIds)"

text \<open>
  One iteration of phase 3: select the candidate, shrink it by one unit, repack and look
  for room.  \<open>None\<close> is the \<open>break\<close> taken when no widget can shrink, \<open>Some (Inl r)\<close> a
  \<open>return r\<close>, and \<open>Some (Inr st)\<close> the state for the next iteration.
\<close>

definition shrinkIteration ::
  "int \<Rightarrow> int \<Rightarrow> int \<Rightarrow> int \<Rightarrow> WidgetMinSizes \<Rightarrow> GridItemLayout list \<Rightarrow> string list
   \<Rightarrow> (AutoAdjustResult + (GridItemLayout list \<times> string list)) option" where
  "shrinkIteration newWidgetW newWidgetH cols maxRows widgetMinSizes workingLayouts shrunkWidgetIds =
     (case findBestCandidate widgetMinSizes workingLayouts of
        None \<Rightarrow> None
      | Some c \<Rightarrow>
          (let (shrunkLayouts, shrunkIds) = shrinkByOne c workingLayouts shrunkWidgetIds;
               packedLayouts = repackWidgets shrunkLayouts cols maxRows
           in (case findFirstFitPosition (createOccupancyGrid packedLayouts cols maxRows None)
                      newWidgetW newWidgetH of
                 Some position \<Rightarrow>
                   Some (Inl \<lparr>canAdd = True, adjustedLayouts = packedLayouts,
                              newWidgetPosition = Some position, shrunkWidgets = shrunkIds\<rparr>)
               | None \<Rightarrow>
                   (let packedOptimal = repackWidgetsOptimal shrunkLayouts cols maxRows
                    in (case findFirstFitPosition
                                (createOccupancyGrid packedOptimal cols maxRows None)
                                newWidgetW newWidgetH of
                          Some position \<Rightarrow>
                            Some (Inl \<lparr>canAdd = True, adjustedLayouts = packedOptimal,
                                       newWidgetPosition = Some position,
                                       shrunkWidgets = shrunkIds\<rparr>)
                        | None \<Rightarrow> Some (Inr (packedOptimal, shrunkIds)))))))"

text \<open>
  Phase 3, the loop \<open>while (iterations < maxIterations)\<close>, with the number of iterations
  left as first argument.  \<open>Inl\<close> is a \<open>return\<close> from inside the loop; \<open>Inr\<close> is the state
  with which the loop is left (by \<open>break\<close> or by running out of iterations).
\<close>

fun shrinkLoop ::
  "nat \<Rightarrow> int \<Rightarrow> int \<Rightarrow> int \<Rightarrow> int \<Rightarrow> WidgetMinSizes \<Rightarrow> GridItemLayout list \<Rightarrow> string list
   \<Rightarrow> AutoAdjustResult + (GridItemLayout list \<times> string list)" where
  "shrinkLoop 0 newWidgetW newWidgetH cols maxRows widgetMinSizes workingLayouts shrunkWidgetIds =
     Inr (workingLayouts, shrunkWidgetIds)"
| "shrinkLoop (Suc n) newWidgetW newWidgetH cols maxRows widgetMinSizes workingLayouts shrunkWidgetIds =
     (case shrinkIteration newWidgetW newWidgetH cols maxRows widgetMinSizes workingLayouts
             shrunkWidgetIds of
        None \<Rightarrow> Inr (workingLayouts, shrunkWidgetIds)
      | Some (Inl result) \<Rightarrow> Inl result
      | Some (Inr (packedOptimal, shrunkIds)) \<Rightarrow>
          shrinkLoop n newWidgetW newWidgetH cols maxRows widgetMinSizes packedOptimal shrunkIds)"

text \<open>Phase 4: every widget at its minimum size, every id recorded as shrunk.\<close>

definition shrinkAllToMinimum ::
  "WidgetMinSizes \<Rightarrow> GridItemLayout list \<Rightarrow> string list \<Rightarrow> GridItemLayout list \<times> string list" where
  "shrinkAllToMinimum widgetMinSizes workingLayouts shrunkWidgetIds =
     (map (\<lambda>l. let (minW, minH) = minSizeOf widgetMinSizes (gi l) in l\<lparr>gw := minW, gh := minH\<rparr>)
          workingLayouts,
      fold (\<lambda>l ids. addId ids (gi l)) workingLayouts shrunkWidgetIds)"

text \<open>The sum of the minimum areas of the feasibility check.\<close>

definition minPossibleUsage :: "WidgetMinSizes \<Rightarrow> GridItemLayout list \<Rightarrow> int" where
  "minPossibleUsage widgetMinSizes layouts =
     fold (\<lambda>layout usage. let (minW, minH) = minSizeOf widgetMinSizes (gi layout)
                           in usage + minW * minH)
          layouts 0"

text \<open>The parameter \<open>_maxWidgets\<close> of the source is not used by it and is left out.\<close>

definition calculateAutoAdjustForNewWidget ::
  "GridItemLayout list \<Rightarrow> int \<Rightarrow> int \<Rightarrow> int \<Rightarrow> int \<Rightarrow> WidgetMinSizes \<Rightarrow> AutoAdjustResult" where
  "calculateAutoAdjustForNewWidget layouts newWidgetW newWidgetH cols maxRows widgetMinSizes =
     (case findFirstFitPosition (createOccupancyGrid layouts cols maxRows None)
             newWidgetW newWidgetH of
        Some existingPosition \<Rightarrow>
          \<lparr>canAdd = True, adjustedLayouts = layouts,
           newWidgetPosition = Some existingPosition, shrunkWidgets = []\<rparr>
      | None \<Rightarrow>
          (let repackedLayouts = repackWidgetsOptimal layouts cols maxRows in
          (case findFirstFitPosition (createOccupancyGrid repackedLayouts cols maxRows None)
                 newWidgetW newWidgetH of
            Some repackedPosition \<Rightarrow>
              \<lparr>canAdd = True, adjustedLayouts = repackedLayouts,
               newWidgetPosition = Some repackedPosition, shrunkWidgets = []\<rparr>
          | None \<Rightarrow>
              if minPossibleUsage widgetMinSizes layouts + newWidgetW * newWidgetH > cols * maxRows
              then \<lparr>canAdd = False, adjustedLayouts = layouts,
                    newWidgetPosition = None, shrunkWidgets = []\<rparr>
              else
                (case shrinkLoop 200 newWidgetW newWidgetH cols maxRows widgetMinSizes layouts [] of
                   Inl result \<Rightarrow> result
                 | Inr (workingLayouts, shrunkWidgetIds) \<Rightarrow>
                     (let (minimumLayouts, shrunkIds) =
                            shrinkAllToMinimum widgetMinSizes workingLayouts shrunkWidgetIds;
                          minPackedLayouts = repackWidgetsOptimal minimumLayouts cols maxRows
                      in (case findFirstFitPosition
                                 (createOccupancyGrid minPackedLayouts cols maxRows None)
                                 newWidgetW newWidgetH of
                            Some minPosition \<Rightarrow>
                              \<lparr>canAdd = True, adjustedLayouts = minPackedLayouts,
                               newWidgetPosition = Some minPosition, shrunkWidgets = shrunkIds\<rparr>
                          | None \<Rightarrow>
                              \<lparr>canAdd = False, adjustedLayouts = layouts,
                               newWidgetPosition = None, shrunkWidgets = []\<rparr>))))))"

section \<open>Resize space manager\<close>

text \<open>
  The fields \<open>newLayouts\<close> and \<open>shrunkWidgets\<close> of the source's result are written
  \<open>resizedLayouts\<close> and \<open>shrunkByResize\<close> here.
\<close>

record ResizeSpaceResult =
  canResize :: bool
  resizedLayouts :: "GridItemLayout list"
  movedWidgets :: "string list"
  shrunkByResize :: "string list"

text \<open>
  Phase 1, one affected widget: move it to the first free position, the new bounds of the
  resizing widget counting as occupied.  The state is
  \<open>(workingLayouts, movedWidgets, stillAffected)\<close>.
\<close>

definition moveStep ::
  "string \<Rightarrow> GridZone \<Rightarrow> int \<Rightarrow> int \<Rightarrow> GridItemLayout
   \<Rightarrow> GridItemLayout list \<times> string list \<times> GridItemLayout list
   \<Rightarrow> GridItemLayout list \<times> string list \<times> GridItemLayout list" where
  "moveStep resizingId newBounds cols maxRows widget st =
     (let (workingLayouts, moved, stillAffected) = st;
          occupancy =
            markZone
              (createOccupancyGrid
                 (filter (\<lambda>l. gi l \<noteq> gi widget \<and> gi l \<noteq> resizingId) workingLayouts)
                 cols maxRows None)
              (gx newBounds) (gy newBounds) (gw newBounds) (gh newBounds) cols maxRows True
      in case findFirstFitPosition occupancy (gw widget) (gh widget) of
           Some (ex, ey) \<Rightarrow>
             (map (\<lambda>l. if gi l = gi widget then l\<lparr>gx := ex, gy := ey\<rparr> else l) workingLayouts,
              moved @ [gi widget],
              filter (\<lambda>w. gi w \<noteq> gi widget) stillAffected)
         | None \<Rightarrow> (workingLayouts, moved, stillAffected))"

text \<open>
  Phase 2, one widget still affected: shrink it away from the new bounds on the first side
  that its minimum size allows.  \<open>None\<close> is \<open>shrinkSuccess = false\<close>.  A widget that is
  not in the working layouts is skipped (\<open>continue\<close>).
\<close>

definition shrinkOne ::
  "GridZone \<Rightarrow> WidgetMinSizes \<Rightarrow> GridItemLayout \<Rightarrow> GridItemLayout list \<Rightarrow> string list
   \<Rightarrow> (GridItemLayout list \<times> string list) option" where
  "shrinkOne newBounds widgetMinSizes widget workingLayouts shrunk =
     (let (minW, minH) = minSizeOf widgetMinSizes (gi widget) in
      case find (\<lambda>l. gi l = gi widget) workingLayouts of
        None \<Rightarrow> Some (workingLayouts, shrunk)
      | Some currentWidget \<Rightarrow>
          (let overlapRight = max 0 ((gx newBounds + gw newBounds) - gx currentWidget);
               overlapBottom = max 0 ((gy newBounds + gh newBounds) - gy currentWidget);
               overlapLeft = max 0 ((gx currentWidget + gw currentWidget) - gx newBounds);
               overlapTop = max 0 ((gy currentWidget + gh currentWidget) - gy newBounds)
           in if overlapRight > 0 \<and> gw currentWidget - overlapRight \<ge> minW
              then Some (map (\<lambda>l. if gi l = gi widget
                                   then l\<lparr>gx := gx l + overlapRight, gw := gw l - overlapRight\<rparr>
                                   else l) workingLayouts,
                         shrunk @ [gi widget])
              else if overlapBottom > 0 \<and> gh currentWidget - overlapBottom \<ge> minH
              then Some (map (\<lambda>l. if gi l = gi widget
                                   then l\<lparr>gy := gy l + overlapBottom, gh := gh l - overlapBottom\<rparr>
                                   else l) workingLayouts,
                         shrunk @ [gi widget])
              else if overlapLeft > 0 \<and> gw currentWidget - overlapLeft \<ge> minW
              then Some (map (\<lambda>l. if gi l = gi widget then l\<lparr>gw := gw l - overlapLeft\<rparr> else l)
                             workingLayouts,
                         shrunk @ [gi widget])
              else if overlapTop > 0 \<and> gh currentWidget - overlapTop \<ge> minH
              then Some (map (\<lambda>l. if gi l = gi widget then l\<lparr>gh := gh l - overlapTop\<rparr> else l)
                             workingLayouts,
                         shrunk @ [gi widget])
              else None))"

text \<open>
  Phase 2, the loop over the widgets still affected; \<open>None\<close> is the early return
  \<open>canResize: false\<close>.
\<close>

fun shrinkEach ::
  "GridItemLayout list \<Rightarrow> GridZone \<Rightarrow> WidgetMinSizes \<Rightarrow> GridItemLayout list \<Rightarrow> string list
   \<Rightarrow> (GridItemLayout list \<times> string list) option" where
  "shrinkEach [] newBounds widgetMinSizes workingLayouts shrunk = Some (workingLayouts, shrunk)"
| "shrinkEach (widget # rest) newBounds widgetMinSizes workingLayouts shrunk =
     (case shrinkOne newBounds widgetMinSizes widget workingLayouts shrunk of
        None \<Rightarrow> None
      | Some (workingLayouts', shrunk') \<Rightarrow>
          shrinkEach rest newBounds widgetMinSizes workingLayouts' shrunk')"

text \<open>The widgets other than the resizing one that overlap its new bounds.\<close>

definition affectedWidgets :: "GridItemLayout list \<Rightarrow> string \<Rightarrow> GridZone \<Rightarrow> GridItemLayout list" where
  "affectedWidgets layouts resizingId newBounds =
     filter (\<lambda>l. if gi l = resizingId then False else zonesOverlap (zoneOf l) newBounds) layouts"

text \<open>Applying the resize to the resizing widget; the source writes this map twice.\<close>

definition applyResize ::
  "string \<Rightarrow> int \<Rightarrow> int \<Rightarrow> int \<Rightarrow> int \<Rightarrow> GridItemLayout list \<Rightarrow> GridItemLayout list" where
  "applyResize resizingId newX newY newW newH layouts =
     map (\<lambda>l. if gi l = resizingId then l\<lparr>gx := newX, gy := newY, gw := newW, gh := newH\<rparr> else l)
         layouts"

definition calculateResizeSpace ::
  "GridItemLayout list \<Rightarrow> string \<Rightarrow> int \<Rightarrow> int \<Rightarrow> int \<Rightarrow> int \<Rightarrow> int \<Rightarrow> int \<Rightarrow> WidgetMinSizes
   \<Rightarrow> ResizeSpaceResult" where
  "calculateResizeSpace layouts resizingId newX newY newW newH cols maxRows widgetMinSizes =
     (case find (\<lambda>l. gi l = resizingId) layouts of
        None \<Rightarrow>
          \<lparr>canResize = False, resizedLayouts = layouts, movedWidgets = [], shrunkByResize = []\<rparr>
      | Some resizingWidget \<Rightarrow>
          (let newBounds = \<lparr>gx = newX, gy = newY, gw = newW, gh = newH\<rparr> in
          if gx newBounds < 0 \<or> gy newBounds < 0 \<or> gx newBounds + gw newBounds > cols
             \<or> gy newBounds + gh newBounds > maxRows
          then \<lparr>canResize = False, resizedLayouts = layouts, movedWidgets = [],
                shrunkByResize = []\<rparr>
          else
            if length (affectedWidgets layouts resizingId newBounds) = 0
            then \<lparr>canResize = True,
                  resizedLayouts = applyResize resizingId newX newY newW newH layouts,
                  movedWidgets = [], shrunkByResize = []\<rparr>
            else
              (case fold (moveStep resizingId newBounds cols maxRows)
                         (affectedWidgets layouts resizingId newBounds)
                         (layouts, [], affectedWidgets layouts resizingId newBounds) of
                 (movedLayouts, moved, stillAffected) \<Rightarrow>
                   (case (if length stillAffected > 0
                          then shrinkEach (sortBy byAreaDesc stillAffected) newBounds
                                 widgetMinSizes movedLayouts []
                          else Some (movedLayouts, [])) of
                      None \<Rightarrow>
                        \<lparr>canResize = False, resizedLayouts = layouts, movedWidgets = [],
                         shrunkByResize = []\<rparr>
                    | Some (workingLayouts, shrunk) \<Rightarrow>
                        \<lparr>canResize = True,
                         resizedLayouts = applyResize resizingId newX newY newW newH workingLayouts,
                         movedWidgets = moved, shrunkByResize = shrunk\<rparr>))))"

section \<open>Swap engine\<close>

text \<open>
  The adjustment of a swapped position to the grid:
  \<^verbatim>\<open>if (p + len > limit) p = limit - len;  if (p < 0) p = 0;\<close>
\<close>

definition fitStart :: "int \<Rightarrow> int \<Rightarrow> int \<Rightarrow> int" where
  "fitStart p len limit =
     (let p' = (if p + len > limit then limit - len else p) in if p' < 0 then 0 else p')"

text \<open>
  The occupancy grid without the source (excluded by id) and without the target (its cells
  cleared afterwards).  The source builds this grid anew each time it needs it.
\<close>

definition occupancyWithoutPair ::
  "GridItemLayout list \<Rightarrow> int \<Rightarrow> int \<Rightarrow> string \<Rightarrow> GridItemLayout \<Rightarrow> OccupancyGrid" where
  "occupancyWithoutPair layouts cols maxRows sourceId targetLayout =
     markZone (createOccupancyGrid layouts cols maxRows (Some sourceId))
       (gx targetLayout) (gy targetLayout) (gw targetLayout) (gh targetLayout) cols maxRows False"

text \<open>
  The new positions \<open>((sourceNewX, sourceNewY), (targetNewX, targetNewY))\<close> of a swap, or
  \<open>None\<close> where the source returns \<open>null\<close>.
\<close>

definition swapPositions ::
  "GridItemLayout list \<Rightarrow> string \<Rightarrow> GridItemLayout \<Rightarrow> GridItemLayout \<Rightarrow> int \<Rightarrow> int
   \<Rightarrow> ((int \<times> int) \<times> (int \<times> int)) option" where
  "swapPositions layouts sourceId sourceLayout targetLayout gridCols gridRows =
     (let occupancy = occupancyWithoutPair layouts gridCols gridRows sourceId targetLayout;
          sourceNewX = fitStart (gx targetLayout) (gw sourceLayout) gridCols;
          sourceNewY = fitStart (gy targetLayout) (gh sourceLayout) gridRows;
          targetNewX = fitStart (gx sourceLayout) (gw targetLayout) gridCols;
          targetNewY = fitStart (gy sourceLayout) (gh targetLayout) gridRows;
          sourceNewZone = \<lparr>gx = sourceNewX, gy = sourceNewY, gw = gw sourceLayout, gh = gh sourceLayout\<rparr>;
          targetNewZone = \<lparr>gx = targetNewX, gy = targetNewY, gw = gw targetLayout, gh = gh targetLayout\<rparr>
      in if zonesOverlap sourceNewZone targetNewZone
         then
           (if canFitAt occupancy sourceNewX sourceNewY (gw sourceLayout) (gh sourceLayout)
            then
              (let tempOccupancy =
                     markZone (occupancyWithoutPair layouts gridCols gridRows sourceId targetLayout)
                       sourceNewX sourceNewY (gw sourceLayout) (gh sourceLayout)
                       gridCols gridRows True
               in (case findBestPositionNear tempOccupancy (gx sourceLayout) (gy sourceLayout)
                          (gw targetLayout) (gh targetLayout) gridCols gridRows of
                     Some targetPos \<Rightarrow> Some ((sourceNewX, sourceNewY), targetPos)
                   | None \<Rightarrow> None))
            else if canFitAt occupancy targetNewX targetNewY (gw targetLayout) (gh targetLayout)
            then
              (let tempOccupancy =
                     markZone (occupancyWithoutPair layouts gridCols gridRows sourceId targetLayout)
                       targetNewX targetNewY (gw targetLayout) (gh targetLayout)
                       gridCols gridRows True
               in (case findBestPositionNear tempOccupancy (gx targetLayout) (gy targetLayout)
                          (gw sourceLayout) (gh sourceLayout) gridCols gridRows of
                     Some sourcePos \<Rightarrow> Some (sourcePos, (targetNewX, targetNewY))
                   | None \<Rightarrow> None))
            else None)
         else
           (let sourceCanFit =
                  canFitAt occupancy sourceNewX sourceNewY (gw sourceLayout) (gh sourceLayout);
                occupancyWithSource =
                  markZone (occupancyWithoutPair layouts gridCols gridRows sourceId targetLayout)
                    sourceNewX sourceNewY (gw sourceLayout) (gh sourceLayout)
                    gridCols gridRows True;
                targetCanFit =
                  canFitAt occupancyWithSource targetNewX targetNewY
                    (gw targetLayout) (gh targetLayout)
            in if \<not> sourceCanFit \<or> \<not> targetCanFit
               then
                 (case (if \<not> sourceCanFit
                        then findBestPositionNear occupancy (gx targetLayout) (gy targetLayout)
                               (gw sourceLayout) (gh sourceLayout) gridCols gridRows
                        else Some (sourceNewX, sourceNewY)) of
                    None \<Rightarrow> None
                  | Some (sourceX, sourceY) \<Rightarrow>
                      (let newOccupancy =
                             markZone
                               (occupancyWithoutPair layouts gridCols gridRows sourceId targetLayout)
                               sourceX sourceY (gw sourceLayout) (gh sourceLayout)
                               gridCols gridRows True
                       in if \<not> canFitAt newOccupancy targetNewX targetNewY
                                  (gw targetLayout) (gh targetLayout)
                          then
                            (case findBestPositionNear newOccupancy (gx sourceLayout)
                                    (gy sourceLayout) (gw targetLayout) (gh targetLayout)
                                    gridCols gridRows of
                               Some targetPos \<Rightarrow> Some ((sourceX, sourceY), targetPos)
                             | None \<Rightarrow> None)
                          else Some ((sourceX, sourceY), (targetNewX, targetNewY))))
               else Some ((sourceNewX, sourceNewY), (targetNewX, targetNewY))))"

text \<open>\<open>cols ?? 12\<close> and \<open>maxRows ?? 20\<close>: the optional parameters and their defaults.\<close>

definition calculateSwap ::
  "GridItemLayout list \<Rightarrow> string \<Rightarrow> string \<Rightarrow> int option \<Rightarrow> int option
   \<Rightarrow> GridItemLayout list option" where
  "calculateSwap layouts sourceId targetId cols maxRows =
     (case find (\<lambda>l. gi l = sourceId) layouts of
        None \<Rightarrow> None
      | Some sourceLayout \<Rightarrow>
          (case find (\<lambda>l. gi l = targetId) layouts of
             None \<Rightarrow> None
           | Some targetLayout \<Rightarrow>
               (let gridCols = (case cols of Some c \<Rightarrow> c | None \<Rightarrow> 12);
                    gridRows = (case maxRows of Some r \<Rightarrow> r | None \<Rightarrow> 20)
                in (case swapPositions layouts sourceId sourceLayout targetLayout
                           gridCols gridRows of
                      None \<Rightarrow> None
                    | Some ((sourceNewX, sourceNewY), (targetNewX, targetNewY)) \<Rightarrow>
                        Some (adjustLayoutsToViewport
                                (map (\<lambda>l. if gi l = sourceId
                                           then l\<lparr>gx := sourceNewX, gy := sourceNewY\<rparr>
                                           else if gi l = targetId
                                           then l\<lparr>gx := targetNewX, gy := targetNewY\<rparr>
                                           else l)
                                     layouts)
                                gridCols gridRows)))))"

text \<open>
  The group swap.  A preview carries the new zone of the source and the new zone of each
  displaced widget.  \<open>previewPositions\<close> is the source's map \<open>newPositions\<close>, keyed by id
  (a later entry replaces an earlier one); \<open>applyPreview\<close> is its \<open>newLayouts\<close>, the
  layouts moved to the new positions with their sizes kept; \<open>calculateMultiSwap\<close> adjusts
  them to the viewport, with the defaults \<open>cols ?? 25\<close> and \<open>maxRows ?? 20\<close>.
\<close>

record MultiSwapPreview =
  previewSourceId :: string
  previewTargetIds :: "string list"
  sourceNewPos :: GridZone
  targetNewPositions :: "(string \<times> GridZone) list"

definition previewPositions :: "MultiSwapPreview \<Rightarrow> string \<Rightarrow> GridZone option" where
  "previewPositions multiSwapPreview =
     fold (\<lambda>(targetId, pos) m. m(targetId \<mapsto> pos)) (targetNewPositions multiSwapPreview)
          [previewSourceId multiSwapPreview \<mapsto> sourceNewPos multiSwapPreview]"

definition applyPreview :: "GridItemLayout list \<Rightarrow> MultiSwapPreview \<Rightarrow> GridItemLayout list" where
  "applyPreview layouts multiSwapPreview =
     map (\<lambda>l. case previewPositions multiSwapPreview (gi l) of
                 Some newPos \<Rightarrow> l\<lparr>gx := gx newPos, gy := gy newPos\<rparr>
               | None \<Rightarrow> l)
         layouts"

definition calculateMultiSwap ::
  "GridItemLayout list \<Rightarrow> MultiSwapPreview \<Rightarrow> int option \<Rightarrow> int option \<Rightarrow> GridItemLayout list" where
  "calculateMultiSwap layouts multiSwapPreview cols maxRows =
     (let gridCols = (case cols of Some c \<Rightarrow> c | None \<Rightarrow> 25);
          gridRows = (case maxRows of Some r \<Rightarrow> r | None \<Rightarrow> 20)
      in adjustLayoutsToViewport (applyPreview layouts multiSwapPreview) gridCols gridRows)"

text \<open>
  The preview of a group swap.  \<open>findOverlappedWidgets\<close>: the layouts other than the
  source whose zone overlaps the source placed at the target.
\<close>

definition findOverlappedWidgets ::
  "GridItemLayout list \<Rightarrow> string \<Rightarrow> int \<Rightarrow> int \<Rightarrow> int \<Rightarrow> int \<Rightarrow> GridItemLayout list" where
  "findOverlappedWidgets layouts sourceId targetX targetY sourceW sourceH =
     filter (\<lambda>layout. if gi layout = sourceId then False
                       else zonesOverlap \<lparr>gx = targetX, gy = targetY, gw = sourceW, gh = sourceH\<rparr>
                              (zoneOf layout))
            layouts"

text \<open>
  One round of the placement loop of \<open>calculateMultiSwapPreview\<close>: the position nearest
  to the source's original position, else any free position; \<open>None\<close> is \<open>return null\<close>.
  The state is the working occupancy grid and \<open>targetNewPositions\<close>, written
  \<open>positions\<close>.
\<close>

definition placeOne ::
  "GridItemLayout \<Rightarrow> int \<Rightarrow> int \<Rightarrow> GridItemLayout \<Rightarrow> OccupancyGrid \<Rightarrow> (string \<times> GridZone) list
   \<Rightarrow> (OccupancyGrid \<times> (string \<times> GridZone) list) option" where
  "placeOne sourceLayout cols maxRows widget workingOccupancy positions =
     (case (case findBestPositionNearExported workingOccupancy (gx sourceLayout) (gy sourceLayout)
                   (gw widget) (gh widget) cols maxRows of
              Some newPos \<Rightarrow> Some newPos
            | None \<Rightarrow> findFirstFitPosition workingOccupancy (gw widget) (gh widget)) of
        None \<Rightarrow> None
      | Some (px, py) \<Rightarrow>
          if px < 0 \<or> py < 0 \<or> px + gw widget > cols \<or> py + gh widget > maxRows then None
          else Some (markZone workingOccupancy px py (gw widget) (gh widget) cols maxRows True,
                     positions
                       @ [(gi widget, \<lparr>gx = px, gy = py, gw = gw widget, gh = gh widget\<rparr>)]))"

fun placeOverlapped ::
  "GridItemLayout list \<Rightarrow> GridItemLayout \<Rightarrow> int \<Rightarrow> int \<Rightarrow> OccupancyGrid \<Rightarrow> (string \<times> GridZone) list
   \<Rightarrow> (string \<times> GridZone) list option" where
  "placeOverlapped [] sourceLayout cols maxRows workingOccupancy positions =
     Some positions"
| "placeOverlapped (widget # rest) sourceLayout cols maxRows workingOccupancy positions =
     (case placeOne sourceLayout cols maxRows widget workingOccupancy positions of
        None \<Rightarrow> None
      | Some (workingOccupancy', positions') \<Rightarrow>
          placeOverlapped rest sourceLayout cols maxRows workingOccupancy' positions')"

text \<open>
  \<open>calculateMultiSwapPreview\<close>.  The source is clamped into the grid as in a swap; the grid
  holds every layout but the source, the overlapped widgets are cleared from it and the
  source is marked at its new position.  The working copy of the grid reads the same as
  the grid at every cell that \<open>canFitAt\<close> looks at.
\<close>

definition calculateMultiSwapPreview ::
  "GridItemLayout list \<Rightarrow> string \<Rightarrow> int \<Rightarrow> int \<Rightarrow> int \<Rightarrow> int \<Rightarrow> MultiSwapPreview option" where
  "calculateMultiSwapPreview layouts sourceId targetX targetY cols maxRows =
     (case find (\<lambda>l. gi l = sourceId) layouts of
        None \<Rightarrow> None
      | Some sourceLayout \<Rightarrow>
          (let sourceNewX = fitStart targetX (gw sourceLayout) cols;
               sourceNewY = fitStart targetY (gh sourceLayout) maxRows;
               overlappedWidgets =
                 findOverlappedWidgets layouts sourceId sourceNewX sourceNewY
                   (gw sourceLayout) (gh sourceLayout)
           in if length overlappedWidgets = 0 then None
              else
                (let cleared =
                       fold (\<lambda>widget occ. markZone occ (gx widget) (gy widget) (gw widget)
                                             (gh widget) cols maxRows False)
                            overlappedWidgets
                            (createOccupancyGrid layouts cols maxRows (Some sourceId));
                     occupancy =
                       markZone cleared sourceNewX sourceNewY (gw sourceLayout) (gh sourceLayout)
                         cols maxRows True;
                     workingOccupancy = occupancy\<lparr>occ_cols := cols, occ_rows := maxRows\<rparr>
                 in (case placeOverlapped (sortBy byAreaDesc overlappedWidgets) sourceLayout
                            cols maxRows workingOccupancy [] of
                       None \<Rightarrow> None
                     | Some positions \<Rightarrow>
                         if sourceNewX < 0 \<or> sourceNewY < 0
                            \<or> sourceNewX + gw sourceLayout > cols
                            \<or> sourceNewY + gh sourceLayout > maxRows
                         then None
                         else if list_ex (\<lambda>(targetId, pos).
                                            gx pos < 0 \<or> gy pos < 0 \<or> gx pos + gw pos > cols
                                            \<or> gy pos + gh pos > maxRows)
                                         positions
                         then None
                         else Some \<lparr>previewSourceId = sourceId,
                                    previewTargetIds = map gi overlappedWidgets,
                                    sourceNewPos = \<lparr>gx = sourceNewX, gy = sourceNewY,
                                                    gw = gw sourceLayout, gh = gh sourceLayout\<rparr>,
                                    targetNewPositions = positions\<rparr>))))"

section \<open>Specification vocabulary\<close>

text \<open>The cell \<open>(row, col)\<close> lies in the rectangle at \<open>(x, y)\<close> of size \<open>w\<close> by \<open>h\<close>.\<close>

definition covers :: "int \<Rightarrow> int \<Rightarrow> int \<Rightarrow> int \<Rightarrow> int \<Rightarrow> int \<Rightarrow> bool" where
  "covers x y w h row col \<longleftrightarrow> y \<le> row \<and> row < y + h \<and> x \<le> col \<and> col < x + w"

text \<open>What a rect keeps when it is only moved: its id and its size.\<close>

definition shape :: "GridItemLayout \<Rightarrow> string \<times> int \<times> int" where
  "shape l = (gi l, gw l, gh l)"

text \<open>
  The minimum-size floor of a returned rect \<open>r\<close> against the input layout \<open>original\<close>:
  the input rect with the same id exists, and \<open>r\<close> is no narrower than the smaller of that
  rect's width and its minimum width, and no lower than the smaller of its height and its
  minimum height.  A rect that was at or above its minimum is so still; a rect that was
  below it has not become smaller.
\<close>

definition keepsFloor :: "WidgetMinSizes \<Rightarrow> GridItemLayout list \<Rightarrow> GridItemLayout \<Rightarrow> bool" where
  "keepsFloor widgetMinSizes original r \<longleftrightarrow>
     (\<exists>l\<in>set original. gi l = gi r
        \<and> gw r \<ge> min (gw l) (fst (minSizeOf widgetMinSizes (gi r)))
        \<and> gh r \<ge> min (gh l) (snd (minSizeOf widgetMinSizes (gi r))))"

definition floorInv :: "WidgetMinSizes \<Rightarrow> GridItemLayout list \<Rightarrow> GridItemLayout list \<Rightarrow> bool" where
  "floorInv widgetMinSizes original working \<longleftrightarrow>
     distinct (map gi working) \<and> list_all (keepsFloor widgetMinSizes original) working"

text \<open>A candidate names a widget of the layout that is above its minimum on the chosen side.\<close>

definition candOK :: "WidgetMinSizes \<Rightarrow> GridItemLayout list \<Rightarrow> ShrinkCandidate \<Rightarrow> bool" where
  "candOK widgetMinSizes layouts c \<longleftrightarrow>
     (\<exists>l\<in>set layouts. candId c = gi l
        \<and> (shrinkType c = ShrinkW \<longrightarrow> gw l > fst (minSizeOf widgetMinSizes (gi l)))
        \<and> (shrinkType c = ShrinkH \<longrightarrow> gh l > snd (minSizeOf widgetMinSizes (gi l))))"

text \<open>The bounds invariant of one rect, and two rects sharing a cell.\<close>

definition inBounds :: "int \<Rightarrow> int \<Rightarrow> GridItemLayout \<Rightarrow> bool" where
  "inBounds cols maxRows l \<longleftrightarrow>
     gx l \<ge> 0 \<and> gy l \<ge> 0 \<and> gx l + gw l \<le> cols \<and> gy l + gh l \<le> maxRows"

definition cellsIntersect :: "GridItemLayout \<Rightarrow> GridItemLayout \<Rightarrow> bool" where
  "cellsIntersect a b \<longleftrightarrow>
     max (gx a) (gx b) < min (gx a + gw a) (gx b + gw b)
     \<and> max (gy a) (gy b) < min (gy a + gh a) (gy b + gh b)"

text \<open>The cells of a rect, and a rect fitting among others: inside the grid and apart from each.\<close>

definition hasCell :: "GridItemLayout \<Rightarrow> int \<Rightarrow> int \<Rightarrow> bool" where
  "hasCell l row col \<longleftrightarrow> covers (gx l) (gy l) (gw l) (gh l) row col"

definition fitsAmong :: "int \<Rightarrow> int \<Rightarrow> GridItemLayout list \<Rightarrow> GridItemLayout \<Rightarrow> bool" where
  "fitsAmong cols maxRows others z \<longleftrightarrow>
     inBounds cols maxRows z \<and> list_all (\<lambda>l. \<not> cellsIntersect z l) others"

text \<open>An occupancy grid that marks exactly the cells of the rects of a list.\<close>

definition gridOf :: "OccupancyGrid \<Rightarrow> int \<Rightarrow> int \<Rightarrow> GridItemLayout list \<Rightarrow> bool" where
  "gridOf occ cols maxRows placed \<longleftrightarrow>
     occ_cols occ = cols \<and> occ_rows occ = maxRows
     \<and> (\<forall>row col. occ_grid occ row col = list_ex (\<lambda>l. hasCell l row col) placed)"

text \<open>
  The core invariant of a layout: the ids are unique, every rect lies inside the grid and
  no two rects share a cell.
\<close>

definition validLayout :: "int \<Rightarrow> int \<Rightarrow> GridItemLayout list \<Rightarrow> bool" where
  "validLayout cols maxRows layouts \<longleftrightarrow>
     distinct (map gi layouts)
     \<and> (\<forall>l\<in>set layouts. inBounds cols maxRows l)
     \<and> (\<forall>a\<in>set layouts. \<forall>b\<in>set layouts. gi a \<noteq> gi b \<longrightarrow> \<not> cellsIntersect a b)"

text \<open>
  The resizing rect at its new bounds, and the invariant of the two phases of a resize:
  the ids are unique, the rects other than the resizing one satisfy the core invariant, and
  each of them is apart from the new bounds or still waits in the list of affected widgets.
\<close>

definition resizedRect :: "string \<Rightarrow> GridZone \<Rightarrow> GridItemLayout" where
  "resizedRect resizingId newBounds =
     \<lparr>gx = gx newBounds, gy = gy newBounds, gw = gw newBounds, gh = gh newBounds, gi = resizingId\<rparr>"

definition resizeInv ::
  "string \<Rightarrow> GridZone \<Rightarrow> int \<Rightarrow> int \<Rightarrow> GridItemLayout list \<Rightarrow> GridItemLayout list \<Rightarrow> bool" where
  "resizeInv resizingId newBounds cols maxRows working stillAffected \<longleftrightarrow>
     distinct (map gi working)
     \<and> validLayout cols maxRows (filter (\<lambda>l. gi l \<noteq> resizingId) working)
     \<and> (\<forall>l\<in>set working. gi l \<noteq> resizingId \<longrightarrow>
           \<not> cellsIntersect l (resizedRect resizingId newBounds) \<or> gi l \<in> gi ` set stillAffected)"

text \<open>
  Four rects around the free middle cell of a grid with three columns:
  \<open>A(0,0,1,2)\<close>, \<open>B(2,1,1,2)\<close>, \<open>C(0,2,2,1)\<close>, \<open>D(1,0,2,1)\<close>.
\<close>

definition pinwheel :: "GridItemLayout list" where
  "pinwheel =
     [\<lparr>gx = 0, gy = 0, gw = 1, gh = 2, gi = ''A''\<rparr>,
      \<lparr>gx = 2, gy = 1, gw = 1, gh = 2, gi = ''B''\<rparr>,
      \<lparr>gx = 0, gy = 2, gw = 2, gh = 1, gi = ''C''\<rparr>,
      \<lparr>gx = 1, gy = 0, gw = 2, gh = 1, gi = ''D''\<rparr>]"

text \<open>The rects of the two worked examples of the push resolver.\<close>

definition rectA :: GridItemLayout where
  "rectA = \<lparr>gx = 0, gy = 0, gw = 6, gh = 6, gi = ''A''\<rparr>"

definition rectB :: GridItemLayout where
  "rectB = \<lparr>gx = 6, gy = 0, gw = 6, gh = 6, gi = ''B''\<rparr>"

definition rectB7 :: GridItemLayout where
  "rectB7 = \<lparr>gx = 6, gy = 0, gw = 6, gh = 7, gi = ''B''\<rparr>"

text \<open>The layout of the auto-adjust example: \<open>A(0,0,8,14)\<close> and \<open>B(8,0,10,14)\<close>.\<close>

definition autoAdjustExample :: "GridItemLayout list" where
  "autoAdjustExample =
     [\<lparr>gx = 0, gy = 0, gw = 8, gh = 14, gi = ''A''\<rparr>,
      \<lparr>gx = 8, gy = 0, gw = 10, gh = 14, gi = ''B''\<rparr>]"

text \<open>
  Two small layouts for the shrinking operations, and a table giving \<open>A\<close> and \<open>B\<close> the
  minimum size 2 by 2.
\<close>

definition resizeExample :: "GridItemLayout list" where
  "resizeExample =
     [\<lparr>gx = 0, gy = 0, gw = 4, gh = 4, gi = ''A''\<rparr>,
      \<lparr>gx = 4, gy = 0, gw = 4, gh = 4, gi = ''B''\<rparr>]"

definition shrinkExample :: "GridItemLayout list" where
  "shrinkExample = [\<lparr>gx = 0, gy = 0, gw = 4, gh = 2, gi = ''A''\<rparr>]"

definition tableAB :: WidgetMinSizes where
  "tableAB = [''A'' \<mapsto> (2, 2), ''B'' \<mapsto> (2, 2)]"

text \<open>
  The swap example of the specification, \<open>A(0,0,4,4)\<close> and \<open>B(8,0,2,2)\<close> on a grid of 12
  columns and 10 rows, with the layout after the first swap; and a layout with a rect
  \<open>Y\<close> outside a grid of 3 columns and 1 row, with the layouts after one and two swaps of
  \<open>A\<close> and \<open>B\<close>.
\<close>

definition swapExample :: "GridItemLayout list" where
  "swapExample =
     [\<lparr>gx = 0, gy = 0, gw = 4, gh = 4, gi = ''A''\<rparr>,
      \<lparr>gx = 8, gy = 0, gw = 2, gh = 2, gi = ''B''\<rparr>]"

definition swapExample1 :: "GridItemLayout list" where
  "swapExample1 =
     [\<lparr>gx = 0, gy = 0, gw = 2, gh = 2, gi = ''B''\<rparr>,
      \<lparr>gx = 8, gy = 0, gw = 4, gh = 4, gi = ''A''\<rparr>]"

definition swapBroken :: "GridItemLayout list" where
  "swapBroken =
     [\<lparr>gx = 2, gy = 0, gw = 1, gh = 1, gi = ''A''\<rparr>,
      \<lparr>gx = 1, gy = 0, gw = 1, gh = 1, gi = ''B''\<rparr>,
      \<lparr>gx = 0, gy = 0, gw = 1, gh = 1, gi = ''X''\<rparr>,
      \<lparr>gx = 0, gy = 5, gw = 1, gh = 1, gi = ''Y''\<rparr>]"

definition swapBroken1 :: "GridItemLayout list" where
  "swapBroken1 =
     [\<lparr>gx = 0, gy = 0, gw = 1, gh = 1, gi = ''X''\<rparr>,
      \<lparr>gx = 1, gy = 0, gw = 1, gh = 1, gi = ''A''\<rparr>,
      \<lparr>gx = 2, gy = 0, gw = 1, gh = 1, gi = ''B''\<rparr>,
      \<lparr>gx = 0, gy = 0, gw = 1, gh = 1, gi = ''Y''\<rparr>]"

definition swapBroken2 :: "GridItemLayout list" where
  "swapBroken2 =
     [\<lparr>gx = 0, gy = 0, gw = 1, gh = 1, gi = ''X''\<rparr>,
      \<lparr>gx = 1, gy = 0, gw = 1, gh = 1, gi = ''Y''\<rparr>,
      \<lparr>gx = 2, gy = 0, gw = 1, gh = 1, gi = ''B''\<rparr>,
      \<lparr>gx = 2, gy = 0, gw = 1, gh = 1, gi = ''A''\<rparr>]"

text \<open>
  A layout of one column: \<open>A(0,0,6,6)\<close> above \<open>E(0,6,6,6)\<close> on a grid of 6 columns and 12
  rows; and the repacked pinwheel that the auto-adjust controller returns.
\<close>

definition columnExample :: "GridItemLayout list" where
  "columnExample = [rectA, \<lparr>gx = 0, gy = 6, gw = 6, gh = 6, gi = ''E''\<rparr>]"

definition pinwheelRepacked :: "GridItemLayout list" where
  "pinwheelRepacked =
     [\<lparr>gx = 0, gy = 0, gw = 1, gh = 2, gi = ''A''\<rparr>,
      \<lparr>gx = 1, gy = 0, gw = 1, gh = 2, gi = ''B''\<rparr>,
      \<lparr>gx = 0, gy = 2, gw = 2, gh = 1, gi = ''C''\<rparr>,
      \<lparr>gx = 1, gy = 0, gw = 2, gh = 1, gi = ''D''\<rparr>]"

text \<open>A preview that exchanges \<open>A\<close> and \<open>B\<close> of the swap example.\<close>

definition swapExamplePreview :: MultiSwapPreview where
  "swapExamplePreview =
     \<lparr>previewSourceId = ''A'', previewTargetIds = [''B''],
      sourceNewPos = \<lparr>gx = 8, gy = 0, gw = 4, gh = 4\<rparr>,
      targetNewPositions = [(''B'', \<lparr>gx = 0, gy = 0, gw = 2, gh = 2\<rparr>)]\<rparr>"

(*DEFS-END*)

section \<open>Facts about the occupancy grid\<close>


lemma setCell_sel [simp]:
  "occ_rows (setCell occ r c v) = occ_rows occ"
  "occ_cols (setCell occ r c v) = occ_cols occ"
  "occ_grid (setCell occ r c v) r' c' = (if r' = r \<and> c' = c then v else occ_grid occ r' c')"
  "rowExists (setCell occ r c v) r' = rowExists occ r'"
  by (simp_all add: setCell_def rowExists_def)

lemma rowExists_cong: "occ_rows a = occ_rows b \<Longrightarrow> rowExists a r = rowExists b r"
  by (simp add: rowExists_def)

lemma fold_cols_plain:
  "occ_rows (fold (\<lambda>col o2. if rowExists o2 row then setCell o2 row col v else o2) cs o1) = occ_rows o1
 \<and> occ_cols (fold (\<lambda>col o2. if rowExists o2 row then setCell o2 row col v else o2) cs o1) = occ_cols o1
 \<and> occ_grid (fold (\<lambda>col o2. if rowExists o2 row then setCell o2 row col v else o2) cs o1) r c =
     (if r = row \<and> c \<in> set cs \<and> rowExists o1 row then v else occ_grid o1 r c)"
  by (induction cs arbitrary: o1) auto

lemma fold_rows_plain:
  "occ_rows (fold (\<lambda>row o1. fold (\<lambda>col o2. if rowExists o2 row then setCell o2 row col v else o2) cs o1) rs occ) = occ_rows occ
 \<and> occ_cols (fold (\<lambda>row o1. fold (\<lambda>col o2. if rowExists o2 row then setCell o2 row col v else o2) cs o1) rs occ) = occ_cols occ
 \<and> occ_grid (fold (\<lambda>row o1. fold (\<lambda>col o2. if rowExists o2 row then setCell o2 row col v else o2) cs o1) rs occ) r c =
     (if r \<in> set rs \<and> c \<in> set cs \<and> rowExists occ r then v else occ_grid occ r c)"
proof (induction rs arbitrary: occ)
  case Nil
  show ?case by simp
next
  case (Cons a rs)
  let ?o = "fold (\<lambda>col o2. if rowExists o2 a then setCell o2 a col v else o2) cs occ"
  have r: "\<And>q. rowExists ?o q = rowExists occ q"
    by (rule rowExists_cong) (simp add: fold_cols_plain)
  show ?case using Cons.IH [of ?o] by (auto simp: fold_cols_plain r)
qed

lemma markCells_sel [simp]:
  "occ_rows (markCells occ rl rh cl ch v) = occ_rows occ"
  "occ_cols (markCells occ rl rh cl ch v) = occ_cols occ"
  "occ_grid (markCells occ rl rh cl ch v) r c =
     (if rl \<le> r \<and> r < rh \<and> cl \<le> c \<and> c < ch \<and> rowExists occ r then v else occ_grid occ r c)"
  unfolding markCells_def by (auto simp: fold_rows_plain)

lemma rowExists_nonneg: "rowExists occ r \<Longrightarrow> 0 \<le> r"
  by (simp add: rowExists_def)

lemma fold_cols_guard:
  "occ_rows (fold (\<lambda>col o2. if row \<ge> 0 \<and> col \<ge> 0 \<and> rowExists o2 row then setCell o2 row col v else o2) cs o1) = occ_rows o1
 \<and> occ_cols (fold (\<lambda>col o2. if row \<ge> 0 \<and> col \<ge> 0 \<and> rowExists o2 row then setCell o2 row col v else o2) cs o1) = occ_cols o1
 \<and> occ_grid (fold (\<lambda>col o2. if row \<ge> 0 \<and> col \<ge> 0 \<and> rowExists o2 row then setCell o2 row col v else o2) cs o1) r c =
     (if r = row \<and> c \<in> set cs \<and> 0 \<le> c \<and> rowExists o1 row then v else occ_grid o1 r c)"
  by (induction cs arbitrary: o1) (auto simp: rowExists_nonneg)

lemma fold_rows_guard:
  "occ_rows (fold (\<lambda>row o1. fold (\<lambda>col o2. if row \<ge> 0 \<and> col \<ge> 0 \<and> rowExists o2 row then setCell o2 row col v else o2) cs o1) rs occ) = occ_rows occ
 \<and> occ_cols (fold (\<lambda>row o1. fold (\<lambda>col o2. if row \<ge> 0 \<and> col \<ge> 0 \<and> rowExists o2 row then setCell o2 row col v else o2) cs o1) rs occ) = occ_cols occ
 \<and> occ_grid (fold (\<lambda>row o1. fold (\<lambda>col o2. if row \<ge> 0 \<and> col \<ge> 0 \<and> rowExists o2 row then setCell o2 row col v else o2) cs o1) rs occ) r c =
     (if r \<in> set rs \<and> c \<in> set cs \<and> 0 \<le> c \<and> rowExists occ r then v else occ_grid occ r c)"
proof (induction rs arbitrary: occ)
  case Nil
  show ?case by simp
next
  case (Cons a rs)
  let ?o = "fold (\<lambda>col o2. if a \<ge> 0 \<and> col \<ge> 0 \<and> rowExists o2 a then setCell o2 a col v else o2) cs occ"
  have r: "\<And>q. rowExists ?o q = rowExists occ q"
    by (rule rowExists_cong) (simp add: fold_cols_guard)
  show ?case using Cons.IH [of ?o] by (auto simp: fold_cols_guard r)
qed

lemma markLayout_sel [simp]:
  "occ_rows (markLayout cols maxRows l occ) = occ_rows occ"
  "occ_cols (markLayout cols maxRows l occ) = occ_cols occ"
  "occ_grid (markLayout cols maxRows l occ) r c =
     (if gy l \<le> r \<and> r < min (gy l + gh l) maxRows \<and> gx l \<le> c \<and> c < min (gx l + gw l) cols
         \<and> 0 \<le> c \<and> rowExists occ r then True else occ_grid occ r c)"
  unfolding markLayout_def by (auto simp: fold_rows_guard)



lemma emptyGrid_sel [simp]:
  "occ_rows (emptyGrid cols maxRows) = maxRows"
  "occ_cols (emptyGrid cols maxRows) = cols"
  "occ_grid (emptyGrid cols maxRows) r c = False"
  by (simp_all add: emptyGrid_def)

lemma fold_markLayout:
  "occ_rows (fold (\<lambda>layout occ. if Some (gi layout) = ex then occ else markLayout cols maxRows layout occ) ls o0) = occ_rows o0
 \<and> occ_cols (fold (\<lambda>layout occ. if Some (gi layout) = ex then occ else markLayout cols maxRows layout occ) ls o0) = occ_cols o0
 \<and> (occ_rows o0 = maxRows \<longrightarrow>
    occ_grid (fold (\<lambda>layout occ. if Some (gi layout) = ex then occ else markLayout cols maxRows layout occ) ls o0) r c =
     ((\<exists>l\<in>set ls. Some (gi l) \<noteq> ex \<and> covers (gx l) (gy l) (gw l) (gh l) r c
           \<and> 0 \<le> r \<and> r < maxRows \<and> 0 \<le> c \<and> c < cols) \<or> occ_grid o0 r c))"
proof (induction ls arbitrary: o0)
  case Nil
  show ?case by simp
next
  case (Cons a ls)
  show ?case
  proof (cases "Some (gi a) = ex")
    case True
    then show ?thesis using Cons.IH [of o0] by simp
  next
    case False
    then show ?thesis using Cons.IH [of "markLayout cols maxRows a o0"]
      by (auto simp: covers_def rowExists_def)
  qed
qed

lemma createOccupancyGrid_sel [simp]:
  "occ_rows (createOccupancyGrid ls cols maxRows ex) = maxRows"
  "occ_cols (createOccupancyGrid ls cols maxRows ex) = cols"
  "occ_grid (createOccupancyGrid ls cols maxRows ex) r c =
     (\<exists>l\<in>set ls. Some (gi l) \<noteq> ex \<and> covers (gx l) (gy l) (gw l) (gh l) r c
           \<and> 0 \<le> r \<and> r < maxRows \<and> 0 \<le> c \<and> c < cols)"
  unfolding createOccupancyGrid_def by (simp_all add: fold_markLayout)

lemma canFitAt_iff:
  "canFitAt occ x y w h \<longleftrightarrow>
     0 \<le> x \<and> 0 \<le> y \<and> x + w \<le> occ_cols occ \<and> y + h \<le> occ_rows occ
     \<and> (\<forall>row col. covers x y w h row col \<longrightarrow> \<not> occ_grid occ row col)"
  by (auto simp: canFitAt_def list_ex_iff covers_def)

lemma firstSome_None_iff: "firstSome f xs = None \<longleftrightarrow> (\<forall>a\<in>set xs. f a = None)"
  by (induction xs) (auto split: option.splits)

lemma firstSome_SomeD:
  "firstSome f xs = Some b \<Longrightarrow> \<exists>n<length xs. f (xs ! n) = Some b \<and> (\<forall>m<n. f (xs ! m) = None)"
proof (induction xs)
  case Nil
  then show ?case by simp
next
  case (Cons a xs)
  show ?case
  proof (cases "f a")
    case None
    with Cons obtain n where n: "n < length xs" "f (xs ! n) = Some b" "\<forall>m<n. f (xs ! m) = None"
      by auto
    have "\<forall>m<Suc n. f ((a # xs) ! m) = None"
      using n None by (auto simp: nth_Cons split: nat.splits)
    with n show ?thesis by (intro exI [of _ "Suc n"]) auto
  next
    case (Some b')
    with Cons.prems show ?thesis by (intro exI [of _ 0]) auto
  qed
qed

lemma firstSome_upto_SomeD:
  assumes "firstSome f [lo..hi] = Some b"
  shows "\<exists>a. lo \<le> a \<and> a \<le> hi \<and> f a = Some b \<and> (\<forall>a'. lo \<le> a' \<and> a' < a \<longrightarrow> f a' = None)"
proof -
  from firstSome_SomeD [OF assms] obtain n where
    n: "n < length [lo..hi]" "f ([lo..hi] ! n) = Some b" "\<forall>m<n. f ([lo..hi] ! m) = None"
    by blast
  from n(1) have le: "lo + int n \<le> hi" by simp
  have nth: "\<And>m. m \<le> n \<Longrightarrow> [lo..hi] ! m = lo + int m"
    using le by simp
  have "\<forall>a'. lo \<le> a' \<and> a' < lo + int n \<longrightarrow> f a' = None"
  proof (intro allI impI)
    fix a' assume a: "lo \<le> a' \<and> a' < lo + int n"
    then have "nat (a' - lo) < n" by linarith
    with n(3) nth [of "nat (a' - lo)"] a show "f a' = None" by auto
  qed
  with n(2) nth [of n] le show ?thesis by (intro exI [of _ "lo + int n"]) auto
qed

lemma findFirstFitPosition_None_iff:
  "findFirstFitPosition occ w h = None \<longleftrightarrow> (\<forall>x y. \<not> canFitAt occ x y w h)"
proof
  assume "findFirstFitPosition occ w h = None"
  then have *: "\<And>x y. 0 \<le> y \<Longrightarrow> y \<le> occ_rows occ - h \<Longrightarrow> 0 \<le> x \<Longrightarrow> x \<le> occ_cols occ - w
                  \<Longrightarrow> \<not> canFitAt occ x y w h"
    by (fastforce simp: findFirstFitPosition_def firstSome_None_iff split: if_splits)
  show "\<forall>x y. \<not> canFitAt occ x y w h"
  proof (intro allI notI)
    fix x y assume c: "canFitAt occ x y w h"
    then have "0 \<le> y" "y \<le> occ_rows occ - h" "0 \<le> x" "x \<le> occ_cols occ - w"
      by (auto simp: canFitAt_iff)
    with * c show False by blast
  qed
next
  assume "\<forall>x y. \<not> canFitAt occ x y w h"
  then show "findFirstFitPosition occ w h = None"
    by (simp add: findFirstFitPosition_def firstSome_None_iff)
qed

lemma findFirstFitPosition_SomeD:
  assumes "findFirstFitPosition occ w h = Some (x, y)"
  shows "canFitAt occ x y w h"
    and "\<And>x' y'. canFitAt occ x' y' w h \<Longrightarrow> y < y' \<or> (y = y' \<and> x \<le> x')"
proof -
  let ?inner = "\<lambda>y. firstSome (\<lambda>x. if canFitAt occ x y w h then Some (x, y) else None)
                               [0..occ_cols occ - w]"
  from assms have "firstSome ?inner [0..occ_rows occ - h] = Some (x, y)"
    by (simp add: findFirstFitPosition_def)
  from firstSome_upto_SomeD [OF this] obtain yy where
    yy: "0 \<le> yy" "yy \<le> occ_rows occ - h" "?inner yy = Some (x, y)"
        "\<forall>a'. 0 \<le> a' \<and> a' < yy \<longrightarrow> ?inner a' = None"
    by blast
  from firstSome_upto_SomeD [OF yy(3)] obtain xx where
    xx: "0 \<le> xx" "xx \<le> occ_cols occ - w"
        "(if canFitAt occ xx yy w h then Some (xx, yy) else None) = Some (x, y)"
        "\<forall>a'. 0 \<le> a' \<and> a' < xx \<longrightarrow> (if canFitAt occ a' yy w h then Some (a', yy) else None) = None"
    by blast
  from xx(3) have eq: "xx = x" "yy = y" and fit: "canFitAt occ x y w h"
    by (auto split: if_splits)
  show "canFitAt occ x y w h" by (rule fit)
  fix x' y' assume c: "canFitAt occ x' y' w h"
  then have b: "0 \<le> y'" "y' \<le> occ_rows occ - h" "0 \<le> x'" "x' \<le> occ_cols occ - w"
    by (auto simp: canFitAt_iff)
  show "y < y' \<or> (y = y' \<and> x \<le> x')"
  proof (rule ccontr)
    assume n: "\<not> (y < y' \<or> (y = y' \<and> x \<le> x'))"
    show False
    proof (cases "y' < y")
      case True
      with yy(4) b eq have "?inner y' = None" by auto
      then have "\<forall>a\<in>set [0..occ_cols occ - w]. \<not> canFitAt occ a y' w h"
        by (auto simp: firstSome_None_iff split: if_splits)
      with b c show False by simp
    next
      case False
      with n have "y' = y" "x' < x" by auto
      with xx(4) b eq c show False by (auto split: if_splits)
    qed
  qed
qed


section \<open>Placement finder: correctness\<close>

text \<open>
  C8.  \<open>canFitAt\<close> holds exactly when the rectangle lies inside the bounds of the occupancy
  grid and every cell it covers is unoccupied.  \<open>findFirstFitPosition\<close> returns \<open>null\<close>
  exactly when no position satisfies \<open>canFitAt\<close>, and otherwise the position satisfying
  \<open>canFitAt\<close> with the smallest \<open>y\<close> and, among those, the smallest \<open>x\<close>.
\<close>

theorem placement_finder_correct:
  "(canFitAt occ x y w h \<longleftrightarrow>
      0 \<le> x \<and> 0 \<le> y \<and> x + w \<le> occ_cols occ \<and> y + h \<le> occ_rows occ
      \<and> (\<forall>row col. covers x y w h row col \<longrightarrow> \<not> occ_grid occ row col))
   \<and> (findFirstFitPosition occ w h = None \<longleftrightarrow> (\<forall>x' y'. \<not> canFitAt occ x' y' w h))
   \<and> (\<forall>px py. findFirstFitPosition occ w h = Some (px, py) \<longrightarrow>
         canFitAt occ px py w h
         \<and> (\<forall>x' y'. canFitAt occ x' y' w h \<longrightarrow> py < y' \<or> (py = y' \<and> px \<le> x')))"
proof (intro conjI allI impI)
  show "canFitAt occ x y w h \<longleftrightarrow>
      0 \<le> x \<and> 0 \<le> y \<and> x + w \<le> occ_cols occ \<and> y + h \<le> occ_rows occ
      \<and> (\<forall>row col. covers x y w h row col \<longrightarrow> \<not> occ_grid occ row col)"
    by (rule canFitAt_iff)
  show "findFirstFitPosition occ w h = None \<longleftrightarrow> (\<forall>x' y'. \<not> canFitAt occ x' y' w h)"
    by (rule findFirstFitPosition_None_iff)
next
  fix px py assume "findFirstFitPosition occ w h = Some (px, py)"
  then show "canFitAt occ px py w h"
    by (rule findFirstFitPosition_SomeD)
next
  fix px py x' y'
  assume "findFirstFitPosition occ w h = Some (px, py)" "canFitAt occ x' y' w h"
  then show "py < y' \<or> (py = y' \<and> px \<le> x')"
    by (rule findFirstFitPosition_SomeD)
qed

theorem placement_finder_correct_witness:
  "findFirstFitPosition (createOccupancyGrid [\<lparr>gx = 0, gy = 0, gw = 2, gh = 1, gi = ''A''\<rparr>] 3 2 None) 2 1
     = Some (0, 1)
   \<and> canFitAt (createOccupancyGrid [\<lparr>gx = 0, gy = 0, gw = 2, gh = 1, gi = ''A''\<rparr>] 3 2 None) 0 1 2 1
   \<and> \<not> canFitAt (createOccupancyGrid [\<lparr>gx = 0, gy = 0, gw = 2, gh = 1, gi = ''A''\<rparr>] 3 2 None) 1 0 2 1"
proof -
  let ?occ = "createOccupancyGrid [\<lparr>gx = 0, gy = 0, gw = 2, gh = 1, gi = ''A''\<rparr>] 3 2 None"
  have f: "findFirstFitPosition ?occ 2 1 = Some (0, 1)"
    by code_simp
  have o: "occ_grid ?occ 0 1" "covers 1 0 2 1 0 1"
    by (simp_all add: covers_def)
  from placement_finder_correct [of ?occ 1 0 2 1] o have n: "\<not> canFitAt ?occ 1 0 2 1"
    by blast
  from placement_finder_correct [of ?occ 1 0 2 1] f have "canFitAt ?occ 0 1 2 1"
    by blast
  with f n show ?thesis by simp
qed

section \<open>Push resolver: correctness\<close>

lemma pushEach_append:
  "pushEach (pre @ rest) tw th z cols maxRows ex wl pw =
     (case pushEach pre tw th z cols maxRows ex wl pw of
        None \<Rightarrow> None
      | Some (wl', pw') \<Rightarrow> pushEach rest tw th z cols maxRows ex wl' pw')"
  by (induction pre arbitrary: wl pw) (auto split: option.splits)

text \<open>
  C9.  When no rect of the layout, other than one carrying the excluded id, overlaps the
  target zone (overlap as the source's \<open>zonesOverlap\<close> decides it), \<open>calculatePush\<close>
  returns \<open>canPush = true\<close>, the input layout and no pushed widgets.
\<close>

theorem calculatePush_no_conflict:
  assumes "\<forall>l\<in>set layouts. Some (gi l) \<noteq> excludeId \<longrightarrow>
             \<not> zonesOverlap (zoneOf l) \<lparr>gx = targetX, gy = targetY, gw = targetW, gh = targetH\<rparr>"
  shows "calculatePush layouts targetX targetY targetW targetH cols maxRows excludeId =
           \<lparr>canPush = True, newLayouts = layouts, pushedWidgets = []\<rparr>"
proof -
  have "overlappingWidgets layouts \<lparr>gx = targetX, gy = targetY, gw = targetW, gh = targetH\<rparr>
          excludeId = []"
    using assms by (auto simp: overlappingWidgets_def filter_empty_conv)
  then show ?thesis by (simp add: calculatePush_def)
qed

theorem calculatePush_no_conflict_witness:
  "\<not> zonesOverlap (zoneOf rectA) \<lparr>gx = 0, gy = 6, gw = 12, gh = 4\<rparr>
   \<and> \<not> zonesOverlap (zoneOf rectB) \<lparr>gx = 0, gy = 6, gw = 12, gh = 4\<rparr>
   \<and> calculatePush [rectA, rectB] 0 6 12 4 12 10 None =
       \<lparr>canPush = True, newLayouts = [rectA, rectB], pushedWidgets = []\<rparr>"
proof -
  have h: "\<forall>l\<in>set [rectA, rectB]. Some (gi l) \<noteq> None \<longrightarrow>
             \<not> zonesOverlap (zoneOf l) \<lparr>gx = 0, gy = 6, gw = 12, gh = 4\<rparr>"
    by (simp add: zonesOverlap_def zoneOf_def rectA_def rectB_def)
  from calculatePush_no_conflict [OF h, of 12 10] h show ?thesis by simp
qed

text \<open>
  C5.  All-or-nothing push.  Let \<open>widget\<close> be one of the rects overlapping the target zone,
  let the rects before it have been relocated, giving the working layout \<open>working\<close>, and
  let none of the four trial directions relocate \<open>widget\<close> in \<open>working\<close>.  Then
  \<open>calculatePush\<close> returns \<open>canPush = false\<close>, the input layout itself and no pushed
  widgets: the relocations made earlier in the call are dropped.
\<close>

theorem calculatePush_all_or_nothing:
  assumes "0 \<le> cols"
      and "overlappingWidgets layouts \<lparr>gx = targetX, gy = targetY, gw = targetW, gh = targetH\<rparr>
             excludeId = pre @ widget # post"
      and "pushEach pre targetW targetH \<lparr>gx = targetX, gy = targetY, gw = targetW, gh = targetH\<rparr>
             cols maxRows excludeId layouts [] = Some (working, pushed)"
      and "\<forall>(dx, dy) \<in> set (pushDirections widget targetW targetH).
             tryPushInDirection working (gi widget) dx dy
               \<lparr>gx = targetX, gy = targetY, gw = targetW, gh = targetH\<rparr> cols maxRows excludeId = None"
  shows "calculatePush layouts targetX targetY targetW targetH cols maxRows excludeId =
           \<lparr>canPush = False, newLayouts = layouts, pushedWidgets = []\<rparr>"
proof -
  let ?z = "\<lparr>gx = targetX, gy = targetY, gw = targetW, gh = targetH\<rparr>"
  have "firstSome (\<lambda>(dx, dy). tryPushInDirection working (gi widget) dx dy ?z cols maxRows excludeId)
          (pushDirections widget targetW targetH) = None"
    using assms(4) by (auto simp: firstSome_None_iff)
  then have "pushEach (pre @ widget # post) targetW targetH ?z cols maxRows excludeId layouts [] = None"
    using assms(3) by (simp add: pushEach_append)
  then show ?thesis using assms(2) by (simp add: calculatePush_def Let_def)
qed

theorem calculatePush_all_or_nothing_witness:
  "pushEach [rectA] 6 6 \<lparr>gx = 3, gy = 0, gw = 6, gh = 6\<rparr> 12 12 None [rectA, rectB7] [] =
     Some ([rectA\<lparr>gy := 6\<rparr>, rectB7], [''A''])
   \<and> calculatePush [rectA, rectB7] 3 0 6 6 12 12 None =
       \<lparr>canPush = False, newLayouts = [rectA, rectB7], pushedWidgets = []\<rparr>"
proof -
  let ?z = "\<lparr>gx = 3, gy = 0, gw = 6, gh = 6\<rparr>"
  have h1: "overlappingWidgets [rectA, rectB7] ?z None = [rectA] @ rectB7 # []"
    by code_simp
  have h2: "pushEach [rectA] 6 6 ?z 12 12 None [rectA, rectB7] [] =
              Some ([rectA\<lparr>gy := 6\<rparr>, rectB7], [''A''])"
    by code_simp
  have h3: "\<forall>(dx, dy) \<in> set (pushDirections rectB7 6 6).
              tryPushInDirection [rectA\<lparr>gy := 6\<rparr>, rectB7] (gi rectB7) dx dy ?z 12 12 None = None"
    by (simp add: pushDirections_def tryPushInDirection_def zonesOverlap_def rectA_def rectB7_def)
  have h0: "(0::int) \<le> 12" by simp
  from calculatePush_all_or_nothing [OF h0 h1 h2 h3] h2 show ?thesis by simp
qed

text \<open>
  C2.  On the grid with 12 columns and 10 rows holding \<open>A(0,0,6,6)\<close> and \<open>B(6,0,6,6)\<close>, a
  push for the zone of size \<open>(6,6)\<close> at \<open>(3,0)\<close> fails: \<open>A\<close> cannot go right (it would
  still overlap the zone), nor down (\<open>6 + 6 > 10\<close> rows), nor left, nor up.  The layout
  comes back unchanged with no pushed widgets.  With 12 rows the push succeeds, \<open>A\<close> going
  to \<open>(0,6)\<close> and \<open>B\<close> to \<open>(6,6)\<close>.
\<close>

theorem calculatePush_example:
  "calculatePush [rectA, rectB] 3 0 6 6 12 10 None =
     \<lparr>canPush = False, newLayouts = [rectA, rectB], pushedWidgets = []\<rparr>
   \<and> calculatePush [rectA, rectB] 3 0 6 6 12 12 None =
     \<lparr>canPush = True, newLayouts = [rectA\<lparr>gy := 6\<rparr>, rectB\<lparr>gy := 6\<rparr>],
      pushedWidgets = [''A'', ''B'']\<rparr>"
  by code_simp

text \<open>The result the example of the specification expects is not what the code returns.\<close>

theorem calculatePush_example_counterexample:
  "\<not> (canPush (calculatePush [rectA, rectB] 3 0 6 6 12 10 None) = True
      \<and> newLayouts (calculatePush [rectA, rectB] 3 0 6 6 12 10 None) =
          [rectA\<lparr>gx := 0, gy := 6\<rparr>, rectB\<lparr>gx := 6, gy := 6\<rparr>]
      \<and> pushedWidgets (calculatePush [rectA, rectB] 3 0 6 6 12 10 None) = [''A'', ''B''])"
  by code_simp

section \<open>Auto-adjust controller: the worked example\<close>

lemma autoAdjustExample_firstFit:
  "findFirstFitPosition (createOccupancyGrid autoAdjustExample 25 20 None) 6 14 = Some (18, 0)"
  by code_simp

text \<open>
  C7.  On the grid with 25 columns and 20 rows holding \<open>A(0,0,8,14)\<close> and \<open>B(8,0,10,14)\<close>,
  a new widget of size 6 by 14 is placed at \<open>(18, 0)\<close> by the first phase, whatever the table
  of minimum sizes: the layout is returned as it was and nothing is shrunk.
\<close>

theorem calculateAutoAdjust_example:
  "calculateAutoAdjustForNewWidget autoAdjustExample 6 14 25 20 widgetMinSizes =
     \<lparr>canAdd = True, adjustedLayouts = autoAdjustExample,
      newWidgetPosition = Some (18, 0), shrunkWidgets = []\<rparr>"
  by (simp add: calculateAutoAdjustForNewWidget_def autoAdjustExample_firstFit)

section \<open>Sorting and packing keep ids and sizes\<close>

lemma mset_insertBy: "mset (insertBy cmp a xs) = add_mset a (mset xs)"
  by (induction xs) auto

lemma mset_sortBy: "mset (sortBy cmp xs) = mset xs"
  unfolding sortBy_def by (induction xs) (auto simp: mset_insertBy)

lemma set_sortBy: "set (sortBy cmp xs) = set xs"
  by (rule mset_eq_setD) (rule mset_sortBy)

lemma firstSome_Some_mem: "firstSome f xs = Some b \<Longrightarrow> \<exists>a\<in>set xs. f a = Some b"
  by (induction xs) (auto split: option.splits)

lemma scan_fits:
  assumes "firstSome (\<lambda>y. firstSome (\<lambda>x. if canFitAt occ x y w h then Some (x, y) else None) xs) ys
             = Some (px, py)"
  shows "canFitAt occ px py w h"
proof -
  from firstSome_Some_mem [OF assms] obtain y where
    "firstSome (\<lambda>x. if canFitAt occ x y w h then Some (x, y) else None) xs = Some (px, py)"
    by blast
  from firstSome_Some_mem [OF this] show ?thesis
    by (auto split: if_splits)
qed

lemma packStep_shape:
  "map shape (fst (packStep cols maxRows w (packed, occ))) = map shape packed @ [shape w]"
  by (auto simp: packStep_def shape_def split: option.splits)

lemma fold_packStep_shape:
  "map shape (fst (fold (packStep cols maxRows) s st)) = map shape (fst st) @ map shape s"
proof (induction s arbitrary: st)
  case Nil
  show ?case by simp
next
  case (Cons a s)
  obtain packed occ where st: "st = (packed, occ)" by (cases st)
  show ?case using Cons.IH [of "packStep cols maxRows a st"]
    by (simp add: st packStep_shape)
qed

lemma packInOrder_shape: "map shape (fst (packInOrder s cols maxRows)) = map shape s"
  by (simp add: packInOrder_def fold_packStep_shape)

lemma packStep_rows:
  "occ_rows (snd (packStep cols maxRows w (packed, occ))) = occ_rows occ"
  by (auto simp: packStep_def split: option.splits)

lemma packStep_extent:
  assumes "occ_rows occ = maxRows" "gy w + gh w \<le> maxRows" "\<forall>l\<in>set packed. gy l + gh l \<le> maxRows"
  shows "\<forall>l\<in>set (fst (packStep cols maxRows w (packed, occ))). gy l + gh l \<le> maxRows"
proof (cases "firstSome (\<lambda>y. firstSome (\<lambda>x. if canFitAt occ x y (gw w) (gh w) then Some (x, y) else None)
                                     [0..cols - gw w]) [0..maxRows - gh w]")
  case None
  with assms show ?thesis by (simp add: packStep_def)
next
  case (Some p)
  obtain px py where p: "p = (px, py)" by (cases p)
  from scan_fits [OF Some [unfolded p]] have "canFitAt occ px py (gw w) (gh w)" .
  then have "py + gh w \<le> maxRows" using assms(1) by (simp add: canFitAt_iff)
  with assms Some p show ?thesis by (simp add: packStep_def)
qed

lemma fold_packStep_extent:
  assumes "occ_rows (snd st) = maxRows" "\<forall>l\<in>set s. gy l + gh l \<le> maxRows"
          "\<forall>l\<in>set (fst st). gy l + gh l \<le> maxRows"
  shows "\<forall>l\<in>set (fst (fold (packStep cols maxRows) s st)). gy l + gh l \<le> maxRows"
  using assms
proof (induction s arbitrary: st)
  case Nil
  then show ?case by simp
next
  case (Cons a s)
  obtain packed occ where st: "st = (packed, occ)" by (cases st)
  have 1: "occ_rows (snd (packStep cols maxRows a st)) = maxRows"
    using Cons.prems(1) by (simp add: st packStep_rows)
  have 2: "\<forall>l\<in>set (fst (packStep cols maxRows a st)). gy l + gh l \<le> maxRows"
    unfolding st using Cons.prems by (intro packStep_extent) (simp_all add: st)
  show ?case using Cons.IH [OF 1 _ 2] Cons.prems(2) by simp
qed

lemma packInOrder_extent:
  assumes "\<forall>l\<in>set s. gy l + gh l \<le> maxRows"
  shows "\<forall>l\<in>set (fst (packInOrder s cols maxRows)). gy l + gh l \<le> maxRows"
  unfolding packInOrder_def using assms by (intro fold_packStep_extent) simp_all

lemma considerStrategy_cases:
  "fst (considerStrategy cols maxRows s best) = fst best
   \<or> fst (considerStrategy cols maxRows s best) = fst (packInOrder s cols maxRows)"
  by (auto simp: considerStrategy_def Let_def split: prod.splits)

lemma fold_considerStrategy_pred:
  assumes "P (fst best)" "\<forall>s\<in>set ss. P (fst (packInOrder s cols maxRows))"
  shows "P (fst (fold (considerStrategy cols maxRows) ss best))"
  using assms
proof (induction ss arbitrary: best)
  case Nil
  then show ?case by simp
next
  case (Cons s ss)
  have "P (fst (considerStrategy cols maxRows s best))"
    using considerStrategy_cases [of cols maxRows s best] Cons.prems by auto
  with Cons show ?case by simp
qed

lemma strategies_mset: "s \<in> set (strategies layouts cols) \<Longrightarrow> mset s = mset layouts"
  by (auto simp: strategies_def mset_sortBy)

lemma repackWidgetsOptimal_pred:
  assumes "P layouts" "\<forall>s\<in>set (strategies layouts cols). P (fst (packInOrder s cols maxRows))"
  shows "P (repackWidgetsOptimal layouts cols maxRows)"
proof (cases "length layouts = 0")
  case True
  with assms(1) show ?thesis by (simp add: repackWidgetsOptimal_def)
next
  case False
  have "P (fst (fold (considerStrategy cols maxRows) (strategies layouts cols) (layouts, None, - 1)))"
    by (rule fold_considerStrategy_pred) (use assms in simp_all)
  with False show ?thesis by (simp add: repackWidgetsOptimal_def)
qed

lemma packInOrder_mset_shape:
  "mset (map shape (fst (packInOrder s cols maxRows))) = mset (map shape s)"
  using arg_cong [OF packInOrder_shape [of s cols maxRows], of mset] .

lemma repackWidgetsOptimal_shape:
  "mset (map shape (repackWidgetsOptimal layouts cols maxRows)) = mset (map shape layouts)"
proof (rule repackWidgetsOptimal_pred)
  show "mset (map shape layouts) = mset (map shape layouts)" by simp
  show "\<forall>s\<in>set (strategies layouts cols).
          mset (map shape (fst (packInOrder s cols maxRows))) = mset (map shape layouts)"
  proof
    fix s assume "s \<in> set (strategies layouts cols)"
    then have "mset s = mset layouts" by (rule strategies_mset)
    then have "mset (map shape s) = mset (map shape layouts)" by simp
    then show "mset (map shape (fst (packInOrder s cols maxRows))) = mset (map shape layouts)"
      by (simp only: packInOrder_mset_shape)
  qed
qed

lemma repackWidgets_shape:
  "mset (map shape (repackWidgets layouts cols maxRows)) = mset (map shape layouts)"
proof (cases "layouts = []")
  case True
  then show ?thesis by (simp add: repackWidgets_def)
next
  case False
  have "mset (map shape (sortBy byPosition layouts)) = mset (map shape layouts)"
    using mset_sortBy [of byPosition layouts] by simp
  with False show ?thesis
    by (simp only: repackWidgets_def packInOrder_mset_shape length_0_conv if_False)
qed

lemma repackWidgetsOptimal_extent:
  assumes "\<forall>l\<in>set layouts. gy l + gh l \<le> maxRows"
  shows "\<forall>l\<in>set (repackWidgetsOptimal layouts cols maxRows). gy l + gh l \<le> maxRows"
proof (rule repackWidgetsOptimal_pred)
  show "\<forall>l\<in>set layouts. gy l + gh l \<le> maxRows" by (rule assms)
  show "\<forall>s\<in>set (strategies layouts cols).
          \<forall>l\<in>set (fst (packInOrder s cols maxRows)). gy l + gh l \<le> maxRows"
  proof
    fix s assume "s \<in> set (strategies layouts cols)"
    then have "mset s = mset layouts" by (rule strategies_mset)
    then have "set s = set layouts" by (rule mset_eq_setD)
    with assms show "\<forall>l\<in>set (fst (packInOrder s cols maxRows)). gy l + gh l \<le> maxRows"
      by (intro packInOrder_extent) simp
  qed
qed

section \<open>Repack optimizer: the vertical extent\<close>

lemma verticalExtent_Max:
  "p \<noteq> [] \<Longrightarrow> verticalExtent p = Max ((\<lambda>l. gy l + gh l) ` set p)"
  by (cases p) (simp_all add: verticalExtent_def Max.set_eq_fold [symmetric])

lemma verticalExtent_le_iff:
  "p \<noteq> [] \<Longrightarrow> verticalExtent p \<le> m \<longleftrightarrow> (\<forall>l\<in>set p. gy l + gh l \<le> m)"
  by (simp add: verticalExtent_Max)

lemma considerStrategy_step:
  assumes "bm = None \<or> bm = Some (verticalExtent p)"
  shows "\<exists>p' e'.
    considerStrategy cols maxRows s (p, bm, e) = (p', Some (verticalExtent p'), e')
    \<and> verticalExtent p' \<le> verticalExtent (fst (packInOrder s cols maxRows))
    \<and> (bm = Some (verticalExtent p) \<longrightarrow> verticalExtent p' \<le> verticalExtent p)"
proof -
  obtain a b where pk: "packInOrder s cols maxRows = (a, b)"
    by (cases "packInOrder s cols maxRows")
  show ?thesis
  proof (cases bm)
    case None
    then show ?thesis by (simp add: considerStrategy_def pk Let_def)
  next
    case (Some m)
    with assms have m: "m = verticalExtent p" by simp
    show ?thesis
    proof (cases "verticalExtent a < m \<or> (m = verticalExtent a
                    \<and> emptySpaceAtTop b (verticalExtent a) cols maxRows > e)")
      case True
      then show ?thesis using Some m by (auto simp: considerStrategy_def pk Let_def)
    next
      case False
      then show ?thesis using Some m by (auto simp: considerStrategy_def pk Let_def)
    qed
  qed
qed

lemma fold_considerStrategy_min:
  assumes "bm = Some (verticalExtent p)"
  shows "verticalExtent (fst (fold (considerStrategy cols maxRows) ss (p, bm, e))) \<le> verticalExtent p
       \<and> (\<forall>s\<in>set ss. verticalExtent (fst (fold (considerStrategy cols maxRows) ss (p, bm, e)))
                          \<le> verticalExtent (fst (packInOrder s cols maxRows)))"
  using assms
proof (induction ss arbitrary: p bm e)
  case Nil
  show ?case by simp
next
  case (Cons s ss)
  from considerStrategy_step [of bm p cols maxRows s e] Cons.prems obtain p' e' where
    st: "considerStrategy cols maxRows s (p, bm, e) = (p', Some (verticalExtent p'), e')"
    and le: "verticalExtent p' \<le> verticalExtent (fst (packInOrder s cols maxRows))"
            "verticalExtent p' \<le> verticalExtent p"
    by auto
  from Cons.IH [of "Some (verticalExtent p')" p' e'] le st show ?case
    by (auto intro: order_trans)
qed

lemma repackWidgetsOptimal_min:
  assumes "layouts \<noteq> []" "s \<in> set (strategies layouts cols)"
  shows "verticalExtent (repackWidgetsOptimal layouts cols maxRows)
           \<le> verticalExtent (fst (packInOrder s cols maxRows))"
proof -
  obtain s1 ss where ss: "strategies layouts cols = s1 # ss"
    by (simp add: strategies_def)
  from considerStrategy_step [of None layouts cols maxRows s1 "- 1"] obtain p' e' where
    st: "considerStrategy cols maxRows s1 (layouts, None, - 1) = (p', Some (verticalExtent p'), e')"
    and le: "verticalExtent p' \<le> verticalExtent (fst (packInOrder s1 cols maxRows))"
    by auto
  from fold_considerStrategy_min [of "Some (verticalExtent p')" p' cols maxRows ss e']
  have "verticalExtent (fst (fold (considerStrategy cols maxRows) ss (p', Some (verticalExtent p'), e')))
          \<le> verticalExtent p'"
    and "\<forall>s\<in>set ss. verticalExtent (fst (fold (considerStrategy cols maxRows) ss (p', Some (verticalExtent p'), e')))
                          \<le> verticalExtent (fst (packInOrder s cols maxRows))"
    by simp_all
  moreover have "repackWidgetsOptimal layouts cols maxRows =
      fst (fold (considerStrategy cols maxRows) ss (p', Some (verticalExtent p'), e'))"
    using assms(1) by (simp add: repackWidgetsOptimal_def ss st)
  ultimately show ?thesis using assms(2) le by (auto simp: ss)
qed


lemma pinwheel_valid: "validLayout 3 4 pinwheel"
  by (simp add: validLayout_def pinwheel_def inBounds_def cellsIntersect_def)

text \<open>
  C3.  Repacking a layout whose rects lie inside the grid returns a layout in which every
  rect still ends at or above the last row (\<open>y + h \<le> maxRows\<close>), and whose vertical extent
  is no more than that of any of the five candidate packings.  It can be more than the
  vertical extent of the input.
\<close>

theorem repackWidgetsOptimal_extent_bound:
  assumes "\<forall>l\<in>set layouts. inBounds cols maxRows l"
  shows "(\<forall>l\<in>set (repackWidgetsOptimal layouts cols maxRows). gy l + gh l \<le> maxRows)
       \<and> (\<forall>s\<in>set (strategies layouts cols). layouts \<noteq> [] \<longrightarrow>
             verticalExtent (repackWidgetsOptimal layouts cols maxRows)
               \<le> verticalExtent (fst (packInOrder s cols maxRows)))"
proof -
  from assms have "\<forall>l\<in>set layouts. gy l + gh l \<le> maxRows" by (simp add: inBounds_def)
  then show ?thesis
    using repackWidgetsOptimal_extent [of layouts maxRows cols]
      repackWidgetsOptimal_min [of layouts _ cols maxRows]
    by blast
qed

theorem repackWidgetsOptimal_extent_bound_witness:
  "validLayout 3 4 pinwheel
   \<and> verticalExtent (repackWidgetsOptimal pinwheel 3 4)
       \<le> verticalExtent (fst (packInOrder (sortBy byPosition pinwheel) 3 4))
   \<and> list_all (\<lambda>l. gy l + gh l \<le> 4) (repackWidgetsOptimal pinwheel 3 4)"
proof -
  have h: "\<forall>l\<in>set pinwheel. inBounds 3 4 l"
    using pinwheel_valid by (simp add: validLayout_def)
  have s: "sortBy byPosition pinwheel \<in> set (strategies pinwheel 3)"
    by (simp add: strategies_def)
  have n: "pinwheel \<noteq> []" by (simp add: pinwheel_def)
  from repackWidgetsOptimal_extent_bound [OF h] s n pinwheel_valid show ?thesis
    by (simp add: list_all_iff)
qed

text \<open>
  The pinwheel is a layout inside a grid of three columns and four rows, with no two rects
  overlapping and a vertical extent of 3; repacked, its vertical extent is 4.
\<close>

theorem repackWidgetsOptimal_extent_counterexample:
  "validLayout 3 4 pinwheel
   \<and> verticalExtent pinwheel = 3
   \<and> verticalExtent (repackWidgetsOptimal pinwheel 3 4) = 4"
proof -
  have "verticalExtent pinwheel = 3" by code_simp
  moreover have "verticalExtent (repackWidgetsOptimal pinwheel 3 4) = 4" by code_simp
  ultimately show ?thesis using pinwheel_valid by simp
qed

section \<open>The minimum-size floor\<close>

lemma gi_shape: "gi l = fst (shape l)"
  by (simp add: shape_def)

lemma keepsFloor_shape:
  "shape a = shape b \<Longrightarrow> keepsFloor mins orig a = keepsFloor mins orig b"
  by (simp add: keepsFloor_def shape_def)

lemma floorInv_mset:
  assumes "mset (map shape w1) = mset (map shape w2)"
  shows "floorInv mins orig w1 = floorInv mins orig w2"
proof -
  have ids: "map gi w1 = map fst (map shape w1)" "map gi w2 = map fst (map shape w2)"
    by (simp_all add: shape_def comp_def)
  have "mset (map gi w1) = mset (map gi w2)"
    unfolding ids using assms by (metis mset_map)
  then have d: "distinct (map gi w1) = distinct (map gi w2)"
    by (rule mset_eq_imp_distinct_iff)
  have s: "shape ` set w1 = shape ` set w2"
    using mset_eq_setD [OF assms] by simp
  have "(\<forall>r\<in>set w1. keepsFloor mins orig r) = (\<forall>r\<in>set w2. keepsFloor mins orig r)"
  proof (intro iffI ballI)
    fix r assume a: "\<forall>r\<in>set w1. keepsFloor mins orig r" "r \<in> set w2"
    then have "shape r \<in> shape ` set w1" using s by blast
    then obtain r1 where "r1 \<in> set w1" "shape r1 = shape r" by auto
    with a show "keepsFloor mins orig r" using keepsFloor_shape by blast
  next
    fix r assume a: "\<forall>r\<in>set w2. keepsFloor mins orig r" "r \<in> set w1"
    then have "shape r \<in> shape ` set w2" using s by blast
    then obtain r2 where "r2 \<in> set w2" "shape r2 = shape r" by auto
    with a show "keepsFloor mins orig r" using keepsFloor_shape by blast
  qed
  with d show ?thesis by (simp add: floorInv_def list_all_iff)
qed

lemma floorInv_refl: "distinct (map gi layouts) \<Longrightarrow> floorInv mins layouts layouts"
  by (auto simp: floorInv_def list_all_iff keepsFloor_def)

lemma considerCandidate_Some:
  assumes "considerCandidate mins l best = Some c"
  shows "best = Some c
       \<or> (candId c = gi l \<and> shrinkType c = ShrinkW \<and> gw l > fst (minSizeOf mins (gi l)))
       \<or> (candId c = gi l \<and> shrinkType c = ShrinkH \<and> gh l > snd (minSizeOf mins (gi l)))"
  using assms
  by (cases "minSizeOf mins (gi l)")
     (auto simp: considerCandidate_def Let_def split: if_splits)

lemma fold_considerCandidate:
  assumes "fold (considerCandidate mins) ls best = Some c"
  shows "best = Some c \<or> candOK mins ls c"
  using assms
proof (induction ls arbitrary: best)
  case Nil
  then show ?case by simp
next
  case (Cons l ls)
  from Cons.IH [of "considerCandidate mins l best"] Cons.prems
  have "considerCandidate mins l best = Some c \<or> candOK mins ls c" by simp
  then show ?case
  proof
    assume "considerCandidate mins l best = Some c"
    from considerCandidate_Some [OF this] show ?thesis
      by (auto simp: candOK_def)
  next
    assume "candOK mins ls c"
    then show ?thesis by (auto simp: candOK_def)
  qed
qed

lemma findBestCandidate_Some:
  "findBestCandidate mins ls = Some c \<Longrightarrow> candOK mins ls c"
  using fold_considerCandidate [of mins ls None c] by (simp add: findBestCandidate_def)


lemma distinct_ids_eq:
  "distinct (map gi ls) \<Longrightarrow> a \<in> set ls \<Longrightarrow> b \<in> set ls \<Longrightarrow> gi a = gi b \<Longrightarrow> a = b"
  by (meson distinct_map inj_onD)

lemma map_gi_update:
  "map gi (map (\<lambda>l. if P l then f l else l) ls) = map gi ls" if "\<And>l. gi (f l) = gi l"
  using that by (induction ls) auto

lemma shrinkByOne_floorInv:
  assumes inv: "floorInv mins orig working" and c: "candOK mins working c"
  shows "floorInv mins orig (fst (shrinkByOne c working ids))"
proof -
  from c obtain l0 where l0: "l0 \<in> set working" "candId c = gi l0"
      "shrinkType c = ShrinkW \<longrightarrow> gw l0 > fst (minSizeOf mins (gi l0))"
      "shrinkType c = ShrinkH \<longrightarrow> gh l0 > snd (minSizeOf mins (gi l0))"
    by (auto simp: candOK_def)
  from inv have d: "distinct (map gi working)"
    and k: "\<And>r. r \<in> set working \<Longrightarrow> keepsFloor mins orig r"
    by (auto simp: floorInv_def list_all_iff)
  let ?f = "\<lambda>l. if shrinkType c = ShrinkW then l\<lparr>gw := gw l - 1\<rparr> else l\<lparr>gh := gh l - 1\<rparr>"
  have fst_eq: "fst (shrinkByOne c working ids) = map (\<lambda>l. if gi l = candId c then ?f l else l) working"
    by (simp add: shrinkByOne_def)
  have ids: "map gi (fst (shrinkByOne c working ids)) = map gi working"
    unfolding fst_eq by (rule map_gi_update) simp
  have kf: "keepsFloor mins orig (if gi l = candId c then ?f l else l)" if "l \<in> set working" for l
  proof (cases "gi l = candId c")
    case False
    with k [OF that] show ?thesis by simp
  next
    case True
    with l0 that d have eq: "l = l0" by (auto intro: distinct_ids_eq)
    from k [OF l0(1)] obtain q where q: "q \<in> set orig" "gi q = gi l0"
        "gw l0 \<ge> min (gw q) (fst (minSizeOf mins (gi l0)))"
        "gh l0 \<ge> min (gh q) (snd (minSizeOf mins (gi l0)))"
      by (auto simp: keepsFloor_def)
    show ?thesis
    proof (cases "shrinkType c")
      case ShrinkW
      with l0 q True eq show ?thesis
        by (auto simp: keepsFloor_def intro!: bexI [of _ q])
    next
      case ShrinkH
      with l0 q True eq show ?thesis
        by (auto simp: keepsFloor_def intro!: bexI [of _ q])
    qed
  qed
  have "list_all (keepsFloor mins orig) (fst (shrinkByOne c working ids))"
    unfolding fst_eq list_all_iff set_map using kf by blast
  with d ids show ?thesis by (simp add: floorInv_def)
qed


lemma shrinkIteration_floorInv:
  assumes inv: "floorInv mins orig working"
      and it: "shrinkIteration nw nh cols maxRows mins working ids = Some res"
  shows "case res of Inl r \<Rightarrow> floorInv mins orig (adjustedLayouts r)
                   | Inr (w', ids') \<Rightarrow> floorInv mins orig w'"
proof -
  from it obtain c where c: "findBestCandidate mins working = Some c"
    by (auto simp: shrinkIteration_def split: option.splits)
  let ?s = "fst (shrinkByOne c working ids)"
  have s: "floorInv mins orig ?s"
    using inv findBestCandidate_Some [OF c] by (rule shrinkByOne_floorInv)
  have p1: "floorInv mins orig (repackWidgets ?s cols maxRows)"
    using s floorInv_mset [OF repackWidgets_shape [of ?s cols maxRows]] by simp
  have p2: "floorInv mins orig (repackWidgetsOptimal ?s cols maxRows)"
    using s floorInv_mset [OF repackWidgetsOptimal_shape [of ?s cols maxRows]] by simp
  from it c p1 p2 show ?thesis
    by (auto simp: shrinkIteration_def Let_def split: option.splits prod.splits)
qed

lemma shrinkLoop_floorInv:
  assumes "floorInv mins orig working"
  shows "case shrinkLoop n nw nh cols maxRows mins working ids of
           Inl r \<Rightarrow> floorInv mins orig (adjustedLayouts r)
         | Inr (w', ids') \<Rightarrow> floorInv mins orig w'"
  using assms
proof (induction n arbitrary: working ids)
  case 0
  then show ?case by simp
next
  case (Suc n)
  show ?case
  proof (cases "shrinkIteration nw nh cols maxRows mins working ids")
    case None
    with Suc.prems show ?thesis by simp
  next
    case (Some res)
    note step = shrinkIteration_floorInv [OF Suc.prems Some]
    show ?thesis
    proof (cases res)
      case (Inl r)
      with step Some show ?thesis by simp
    next
      case (Inr st)
      obtain w' ids' where st: "st = (w', ids')" by (cases st)
      with step Inr have "floorInv mins orig w'" by simp
      from Suc.IH [OF this, of ids'] Some Inr st show ?thesis by simp
    qed
  qed
qed

lemma shrinkAllToMinimum_floorInv:
  assumes "floorInv mins orig working"
  shows "floorInv mins orig (fst (shrinkAllToMinimum mins working ids))"
proof -
  let ?f = "\<lambda>l. let (minW, minH) = minSizeOf mins (gi l) in l\<lparr>gw := minW, gh := minH\<rparr>"
  have fst_eq: "fst (shrinkAllToMinimum mins working ids) = map ?f working"
    by (simp add: shrinkAllToMinimum_def)
  have ids: "map gi (map ?f working) = map gi working"
    by (induction working) (auto split: prod.splits)
  have "keepsFloor mins orig (?f l)" if "keepsFloor mins orig l" for l
    using that by (cases "minSizeOf mins (gi l)") (auto simp: keepsFloor_def)
  then have "list_all (keepsFloor mins orig) (map ?f working)"
    using assms unfolding floorInv_def list_all_iff set_map by blast
  moreover have "distinct (map gi (map ?f working))"
    unfolding ids using assms by (simp add: floorInv_def)
  ultimately show ?thesis by (simp only: floorInv_def fst_eq simp_thms)
qed

lemma calculateAutoAdjust_floorInv:
  assumes d: "distinct (map gi layouts)"
      and ok: "canAdd (calculateAutoAdjustForNewWidget layouts nw nh cols maxRows mins)"
  shows "floorInv mins layouts
           (adjustedLayouts (calculateAutoAdjustForNewWidget layouts nw nh cols maxRows mins))"
proof -
  have i0: "floorInv mins layouts layouts" using d by (rule floorInv_refl)
  have i1: "floorInv mins layouts (repackWidgetsOptimal layouts cols maxRows)"
    using i0 floorInv_mset [OF repackWidgetsOptimal_shape [of layouts cols maxRows]] by simp
  note lp = shrinkLoop_floorInv [OF i0, of 200 nw nh cols maxRows "[]"]
  show ?thesis
  proof (cases "shrinkLoop 200 nw nh cols maxRows mins layouts []")
    case (Inl r)
    with lp have "floorInv mins layouts (adjustedLayouts r)" by simp
    with i0 i1 Inl ok show ?thesis
      by (auto simp: calculateAutoAdjustForNewWidget_def Let_def split: option.splits if_splits)
  next
    case (Inr st)
    obtain w' ids' where st: "st = (w', ids')" by (cases st)
    with lp Inr have "floorInv mins layouts w'" by simp
    then have m: "floorInv mins layouts (fst (shrinkAllToMinimum mins w' ids'))"
      by (rule shrinkAllToMinimum_floorInv)
    have "floorInv mins layouts
            (repackWidgetsOptimal (fst (shrinkAllToMinimum mins w' ids')) cols maxRows)"
      using m floorInv_mset [OF repackWidgetsOptimal_shape
          [of "fst (shrinkAllToMinimum mins w' ids')" cols maxRows]] by simp
    with i0 i1 Inr st ok show ?thesis
      by (auto simp: calculateAutoAdjustForNewWidget_def Let_def
               split: option.splits if_splits prod.splits)
  qed
qed

lemma moveStep_shape:
  "map shape (fst (moveStep rid nb cols maxRows widget st)) = map shape (fst st)"
proof -
  obtain working moved still where st: "st = (working, moved, still)" by (cases st)
  have "map shape (map (\<lambda>l. if gi l = gi widget then l\<lparr>gx := ex, gy := ey\<rparr> else l) working)
          = map shape working" for ex ey
    by (induction working) (auto simp: shape_def)
  then show ?thesis
    by (auto simp: st moveStep_def Let_def split: option.splits)
qed

lemma fold_moveStep_shape:
  "map shape (fst (fold (moveStep rid nb cols maxRows) ws st)) = map shape (fst st)"
  by (induction ws arbitrary: st) (simp_all add: moveStep_shape)

lemma find_Some_mem: "find P xs = Some a \<Longrightarrow> a \<in> set xs \<and> P a"
  by (induction xs) (auto split: if_splits)

lemma update_floorInv:
  assumes inv: "floorInv mins orig working"
      and cw: "cw \<in> set working" "gi cw = wid"
      and f: "keepsFloor mins orig (f cw)" "\<And>l. gi (f l) = gi l"
  shows "floorInv mins orig (map (\<lambda>l. if gi l = wid then f l else l) working)"
proof -
  from inv have d: "distinct (map gi working)"
    and k: "\<And>r. r \<in> set working \<Longrightarrow> keepsFloor mins orig r"
    by (auto simp: floorInv_def list_all_iff)
  have ids: "map gi (map (\<lambda>l. if gi l = wid then f l else l) working) = map gi working"
    by (rule map_gi_update) (rule f(2))
  have kf: "keepsFloor mins orig (if gi l = wid then f l else l)" if "l \<in> set working" for l
  proof (cases "gi l = wid")
    case False
    with k [OF that] show ?thesis by simp
  next
    case True
    with cw that d have "l = cw" by (auto intro: distinct_ids_eq)
    with True f show ?thesis by simp
  qed
  have "list_all (keepsFloor mins orig) (map (\<lambda>l. if gi l = wid then f l else l) working)"
    unfolding list_all_iff set_map using kf by blast
  moreover have "distinct (map gi (map (\<lambda>l. if gi l = wid then f l else l) working))"
    unfolding ids by (rule d)
  ultimately show ?thesis by (simp only: floorInv_def simp_thms)
qed

lemma shrinkOne_floorInv:
  assumes inv: "floorInv mins orig working"
      and sh: "shrinkOne nb mins widget working shrunk = Some (w', s')"
  shows "floorInv mins orig w'"
proof (cases "find (\<lambda>l. gi l = gi widget) working")
  case None
  with sh have "w' = working" by (auto simp: shrinkOne_def split: prod.splits)
  with inv show ?thesis by simp
next
  case (Some cw)
  from find_Some_mem [OF Some] have cw: "cw \<in> set working" "gi cw = gi widget" by auto
  from inv have k: "keepsFloor mins orig cw"
    using cw by (auto simp: floorInv_def list_all_iff)
  obtain minW minH where m: "minSizeOf mins (gi widget) = (minW, minH)"
    by (cases "minSizeOf mins (gi widget)")
  from k obtain q where q: "q \<in> set orig" "gi q = gi cw"
      "gw cw \<ge> min (gw q) minW" "gh cw \<ge> min (gh q) minH"
    using cw(2) m by (auto simp: keepsFloor_def)
  let ?oR = "max 0 ((gx nb + gw nb) - gx cw)"
  let ?oB = "max 0 ((gy nb + gh nb) - gy cw)"
  let ?oL = "max 0 ((gx cw + gw cw) - gx nb)"
  let ?oT = "max 0 ((gy cw + gh cw) - gy nb)"
  consider (a) "?oR > 0 \<and> gw cw - ?oR \<ge> minW"
    | (b) "\<not> (?oR > 0 \<and> gw cw - ?oR \<ge> minW)" "?oB > 0 \<and> gh cw - ?oB \<ge> minH"
    | (c) "\<not> (?oR > 0 \<and> gw cw - ?oR \<ge> minW)" "\<not> (?oB > 0 \<and> gh cw - ?oB \<ge> minH)"
          "?oL > 0 \<and> gw cw - ?oL \<ge> minW"
    | (d) "\<not> (?oR > 0 \<and> gw cw - ?oR \<ge> minW)" "\<not> (?oB > 0 \<and> gh cw - ?oB \<ge> minH)"
          "\<not> (?oL > 0 \<and> gw cw - ?oL \<ge> minW)" "?oT > 0 \<and> gh cw - ?oT \<ge> minH"
    | (e) "\<not> (?oR > 0 \<and> gw cw - ?oR \<ge> minW)" "\<not> (?oB > 0 \<and> gh cw - ?oB \<ge> minH)"
          "\<not> (?oL > 0 \<and> gw cw - ?oL \<ge> minW)" "\<not> (?oT > 0 \<and> gh cw - ?oT \<ge> minH)"
    by blast
  then show ?thesis
  proof cases
    case a
    with sh Some m have w': "w' = map (\<lambda>l. if gi l = gi widget
               then (\<lambda>l. l\<lparr>gx := gx l + ?oR, gw := gw l - ?oR\<rparr>) l else l) working"
      by (simp add: shrinkOne_def Let_def)
    have "keepsFloor mins orig ((\<lambda>l. l\<lparr>gx := gx l + ?oR, gw := gw l - ?oR\<rparr>) cw)"
      using a q m cw by (auto simp: keepsFloor_def intro!: bexI [of _ q])
    then show ?thesis unfolding w'
      by (intro update_floorInv [where f = "\<lambda>l. l\<lparr>gx := gx l + ?oR, gw := gw l - ?oR\<rparr>", OF inv cw]) simp_all
  next
    case b
    with sh Some m have w': "w' = map (\<lambda>l. if gi l = gi widget
               then (\<lambda>l. l\<lparr>gy := gy l + ?oB, gh := gh l - ?oB\<rparr>) l else l) working"
      by (simp add: shrinkOne_def Let_def)
    have "keepsFloor mins orig ((\<lambda>l. l\<lparr>gy := gy l + ?oB, gh := gh l - ?oB\<rparr>) cw)"
      using b q m cw by (auto simp: keepsFloor_def intro!: bexI [of _ q])
    then show ?thesis unfolding w'
      by (intro update_floorInv [where f = "\<lambda>l. l\<lparr>gy := gy l + ?oB, gh := gh l - ?oB\<rparr>", OF inv cw]) simp_all
  next
    case c
    with sh Some m have w': "w' = map (\<lambda>l. if gi l = gi widget
               then (\<lambda>l. l\<lparr>gw := gw l - ?oL\<rparr>) l else l) working"
      by (simp add: shrinkOne_def Let_def)
    have "keepsFloor mins orig ((\<lambda>l. l\<lparr>gw := gw l - ?oL\<rparr>) cw)"
      using c q m cw by (auto simp: keepsFloor_def intro!: bexI [of _ q])
    then show ?thesis unfolding w'
      by (intro update_floorInv [where f = "\<lambda>l. l\<lparr>gw := gw l - ?oL\<rparr>", OF inv cw]) simp_all
  next
    case d
    with sh Some m have w': "w' = map (\<lambda>l. if gi l = gi widget
               then (\<lambda>l. l\<lparr>gh := gh l - ?oT\<rparr>) l else l) working"
      by (simp add: shrinkOne_def Let_def)
    have "keepsFloor mins orig ((\<lambda>l. l\<lparr>gh := gh l - ?oT\<rparr>) cw)"
      using d q m cw by (auto simp: keepsFloor_def intro!: bexI [of _ q])
    then show ?thesis unfolding w'
      by (intro update_floorInv [where f = "\<lambda>l. l\<lparr>gh := gh l - ?oT\<rparr>", OF inv cw]) simp_all
  next
    case e
    with sh Some m show ?thesis by (simp add: shrinkOne_def Let_def)
  qed
qed

lemma shrinkEach_floorInv:
  assumes "floorInv mins orig working"
      and "shrinkEach ws nb mins working shrunk = Some (w', s')"
  shows "floorInv mins orig w'"
  using assms
proof (induction ws arbitrary: working shrunk)
  case Nil
  then show ?case by simp
next
  case (Cons a ws)
  from Cons.prems(2) obtain w1 s1 where
    1: "shrinkOne nb mins a working shrunk = Some (w1, s1)"
    and 2: "shrinkEach ws nb mins w1 s1 = Some (w', s')"
    by (auto split: option.splits)
  from shrinkOne_floorInv [OF Cons.prems(1) 1] have "floorInv mins orig w1" .
  from Cons.IH [OF this 2] show ?case .
qed

lemma applyResize_others:
  "r \<in> set (applyResize rid nx ny nw nh ws) \<Longrightarrow> gi r \<noteq> rid \<Longrightarrow> r \<in> set ws"
  by (auto simp: applyResize_def split: if_splits)

text \<open>The two ways in which a resize succeeds.\<close>

lemma calculateResizeSpace_success:
  assumes "canResize (calculateResizeSpace layouts rid nx ny nw nh cols maxRows mins)"
  shows "find (\<lambda>l. gi l = rid) layouts \<noteq> None \<and> 0 \<le> nx \<and> 0 \<le> ny \<and> nx + nw \<le> cols \<and> ny + nh \<le> maxRows
     \<and> ((affectedWidgets layouts rid \<lparr>gx = nx, gy = ny, gw = nw, gh = nh\<rparr> = []
          \<and> calculateResizeSpace layouts rid nx ny nw nh cols maxRows mins =
              \<lparr>canResize = True, resizedLayouts = applyResize rid nx ny nw nh layouts,
               movedWidgets = [], shrunkByResize = []\<rparr>)
        \<or> (\<exists>ml mv still w' s'.
              affectedWidgets layouts rid \<lparr>gx = nx, gy = ny, gw = nw, gh = nh\<rparr> \<noteq> []
            \<and> fold (moveStep rid \<lparr>gx = nx, gy = ny, gw = nw, gh = nh\<rparr> cols maxRows)
                 (affectedWidgets layouts rid \<lparr>gx = nx, gy = ny, gw = nw, gh = nh\<rparr>)
                 (layouts, [], affectedWidgets layouts rid \<lparr>gx = nx, gy = ny, gw = nw, gh = nh\<rparr>)
                = (ml, mv, still)
            \<and> (if still \<noteq> []
                then shrinkEach (sortBy byAreaDesc still) \<lparr>gx = nx, gy = ny, gw = nw, gh = nh\<rparr>
                       mins ml []
                else Some (ml, [])) = Some (w', s')
            \<and> calculateResizeSpace layouts rid nx ny nw nh cols maxRows mins =
                \<lparr>canResize = True, resizedLayouts = applyResize rid nx ny nw nh w',
                 movedWidgets = mv, shrunkByResize = s'\<rparr>))"
proof -
  let ?nb = "\<lparr>gx = nx, gy = ny, gw = nw, gh = nh\<rparr>"
  let ?aff = "affectedWidgets layouts rid ?nb"
  from assms obtain rw where f: "find (\<lambda>l. gi l = rid) layouts = Some rw"
    by (cases "find (\<lambda>l. gi l = rid) layouts") (auto simp: calculateResizeSpace_def)
  from assms f have b: "\<not> (nx < 0 \<or> ny < 0 \<or> nx + nw > cols \<or> ny + nh > maxRows)"
    by (auto simp: calculateResizeSpace_def)
  show ?thesis
  proof (cases "?aff = []")
    case True
    with f b show ?thesis by (simp add: calculateResizeSpace_def)
  next
    case False
    obtain ml mv still where fm: "fold (moveStep rid ?nb cols maxRows) ?aff (layouts, [], ?aff) = (ml, mv, still)"
      by (cases "fold (moveStep rid ?nb cols maxRows) ?aff (layouts, [], ?aff)") auto
    let ?sh = "if still \<noteq> [] then shrinkEach (sortBy byAreaDesc still) ?nb mins ml [] else Some (ml, [])"
    show ?thesis
    proof (cases ?sh)
      case None
      with assms f b False fm show ?thesis by (simp add: calculateResizeSpace_def)
    next
      case (Some p)
      obtain w' s' where p: "p = (w', s')" by (cases p)
      from f b False fm Some p
      have "calculateResizeSpace layouts rid nx ny nw nh cols maxRows mins =
                \<lparr>canResize = True, resizedLayouts = applyResize rid nx ny nw nh w',
                 movedWidgets = mv, shrunkByResize = s'\<rparr>"
        by (simp add: calculateResizeSpace_def)
      with f b False fm Some p show ?thesis by auto
    qed
  qed
qed

lemma calculateResizeSpace_floor:
  assumes d: "distinct (map gi layouts)"
      and ok: "canResize (calculateResizeSpace layouts rid nx ny nw nh cols maxRows mins)"
      and r: "r \<in> set (resizedLayouts (calculateResizeSpace layouts rid nx ny nw nh cols maxRows mins))"
             "gi r \<noteq> rid"
  shows "keepsFloor mins layouts r"
proof -
  let ?nb = "\<lparr>gx = nx, gy = ny, gw = nw, gh = nh\<rparr>"
  let ?aff = "affectedWidgets layouts rid ?nb"
  have i0: "floorInv mins layouts layouts" using d by (rule floorInv_refl)
  have "\<exists>ws. floorInv mins layouts ws \<and>
          resizedLayouts (calculateResizeSpace layouts rid nx ny nw nh cols maxRows mins)
            = applyResize rid nx ny nw nh ws"
    using calculateResizeSpace_success [OF ok]
  proof (elim conjE disjE exE)
    assume "calculateResizeSpace layouts rid nx ny nw nh cols maxRows mins =
              \<lparr>canResize = True, resizedLayouts = applyResize rid nx ny nw nh layouts,
               movedWidgets = [], shrunkByResize = []\<rparr>"
    with i0 show ?thesis by auto
  next
    fix ml mv still w' s'
    assume fm: "fold (moveStep rid ?nb cols maxRows) ?aff (layouts, [], ?aff) = (ml, mv, still)"
      and sh: "(if still \<noteq> [] then shrinkEach (sortBy byAreaDesc still) ?nb mins ml []
                else Some (ml, [])) = Some (w', s')"
      and res: "calculateResizeSpace layouts rid nx ny nw nh cols maxRows mins =
                \<lparr>canResize = True, resizedLayouts = applyResize rid nx ny nw nh w',
                 movedWidgets = mv, shrunkByResize = s'\<rparr>"
    have "map shape ml = map shape layouts"
      using fold_moveStep_shape [of rid ?nb cols maxRows ?aff "(layouts, [], ?aff)"] fm by simp
    then have "mset (map shape ml) = mset (map shape layouts)" by simp
    from floorInv_mset [OF this] i0 have i1: "floorInv mins layouts ml" by simp
    have "floorInv mins layouts w'"
    proof (cases "still \<noteq> []")
      case True
      with sh have "shrinkEach (sortBy byAreaDesc still) ?nb mins ml [] = Some (w', s')" by simp
      from shrinkEach_floorInv [OF i1 this] show ?thesis .
    next
      case False
      with sh i1 show ?thesis by simp
    qed
    with res show ?thesis by auto
  qed
  then obtain ws where ws: "floorInv mins layouts ws"
    "resizedLayouts (calculateResizeSpace layouts rid nx ny nw nh cols maxRows mins)
       = applyResize rid nx ny nw nh ws"
    by blast
  from r ws(2) have "r \<in> set ws" by (auto intro: applyResize_others)
  with ws(1) show ?thesis by (simp add: floorInv_def list_all_iff)
qed



lemma keepsFloor_table:
  "keepsFloor mins layouts r \<Longrightarrow> mins (gi r) = Some (minW, minH)
   \<Longrightarrow> \<exists>l\<in>set layouts. gi l = gi r \<and> gw r \<ge> min (gw l) minW \<and> gh r \<ge> min (gh l) minH"
  by (auto simp: keepsFloor_def minSizeOf_def)


lemma resizeExample_tableAB:
  "calculateResizeSpace resizeExample ''A'' 0 0 6 4 8 4 tableAB =
     \<lparr>canResize = True,
      resizedLayouts = [\<lparr>gx = 0, gy = 0, gw = 6, gh = 4, gi = ''A''\<rparr>,
                        \<lparr>gx = 6, gy = 0, gw = 2, gh = 4, gi = ''B''\<rparr>],
      movedWidgets = [], shrunkByResize = [''B'']\<rparr>"
  by code_simp


lemma shrinkExample_tableAB:
  "calculateAutoAdjustForNewWidget shrinkExample 2 2 4 2 tableAB =
     \<lparr>canAdd = True, adjustedLayouts = [\<lparr>gx = 0, gy = 0, gw = 2, gh = 2, gi = ''A''\<rparr>],
      newWidgetPosition = Some (2, 0), shrunkWidgets = [''A'']\<rparr>"
  by code_simp


text \<open>
  C6.  In a layout with unique ids, a successful \<open>calculateResizeSpace\<close> leaves every rect
  other than the one being resized, and a successful \<open>calculateAutoAdjustForNewWidget\<close>
  leaves every rect, whose id is in the table of minimum sizes no narrower than the smaller
  of its input width and \<open>minW\<close>, and no lower than the smaller of its input height and
  \<open>minH\<close>.  So a rect that met its minimum size in the input meets it in the result.
\<close>

theorem minimum_size_floor:
  assumes "distinct (map gi layouts)" and "0 \<le> cols"
  shows "(canResize (calculateResizeSpace layouts rid nx ny nw nh cols maxRows mins) \<longrightarrow>
           (\<forall>r\<in>set (resizedLayouts (calculateResizeSpace layouts rid nx ny nw nh cols maxRows mins)).
              gi r \<noteq> rid \<longrightarrow>
              (\<forall>minW minH. mins (gi r) = Some (minW, minH) \<longrightarrow>
                 (\<exists>l\<in>set layouts. gi l = gi r
                    \<and> gw r \<ge> min (gw l) minW \<and> gh r \<ge> min (gh l) minH))))
       \<and> (canAdd (calculateAutoAdjustForNewWidget layouts newW newH cols maxRows mins) \<longrightarrow>
           (\<forall>r\<in>set (adjustedLayouts
                       (calculateAutoAdjustForNewWidget layouts newW newH cols maxRows mins)).
              \<forall>minW minH. mins (gi r) = Some (minW, minH) \<longrightarrow>
                 (\<exists>l\<in>set layouts. gi l = gi r
                    \<and> gw r \<ge> min (gw l) minW \<and> gh r \<ge> min (gh l) minH)))"
proof (intro conjI impI ballI allI)
  fix r minW minH
  assume ok: "canResize (calculateResizeSpace layouts rid nx ny nw nh cols maxRows mins)"
    and r: "r \<in> set (resizedLayouts (calculateResizeSpace layouts rid nx ny nw nh cols maxRows mins))"
    and ne: "gi r \<noteq> rid" and m: "mins (gi r) = Some (minW, minH)"
  from assms(1) ok r ne have "keepsFloor mins layouts r" by (rule calculateResizeSpace_floor)
  then show "\<exists>l\<in>set layouts. gi l = gi r \<and> gw r \<ge> min (gw l) minW \<and> gh r \<ge> min (gh l) minH"
    using m by (rule keepsFloor_table)
next
  fix r minW minH
  assume ok: "canAdd (calculateAutoAdjustForNewWidget layouts newW newH cols maxRows mins)"
    and r: "r \<in> set (adjustedLayouts
                       (calculateAutoAdjustForNewWidget layouts newW newH cols maxRows mins))"
    and m: "mins (gi r) = Some (minW, minH)"
  from calculateAutoAdjust_floorInv [OF assms(1) ok] r have "keepsFloor mins layouts r"
    by (simp add: floorInv_def list_all_iff)
  then show "\<exists>l\<in>set layouts. gi l = gi r \<and> gw r \<ge> min (gw l) minW \<and> gh r \<ge> min (gh l) minH"
    using m by (rule keepsFloor_table)
qed

theorem minimum_size_floor_witness:
  "distinct (map gi resizeExample) \<and> distinct (map gi shrinkExample)
   \<and> canResize (calculateResizeSpace resizeExample ''A'' 0 0 6 4 8 4 tableAB)
   \<and> shrunkByResize (calculateResizeSpace resizeExample ''A'' 0 0 6 4 8 4 tableAB) = [''B'']
   \<and> list_all (\<lambda>r. gi r = ''A'' \<or> (tableAB (gi r) = Some (2, 2) \<and> 2 \<le> gw r \<and> 2 \<le> gh r))
        (resizedLayouts (calculateResizeSpace resizeExample ''A'' 0 0 6 4 8 4 tableAB))
   \<and> canAdd (calculateAutoAdjustForNewWidget shrinkExample 2 2 4 2 tableAB)
   \<and> shrunkWidgets (calculateAutoAdjustForNewWidget shrinkExample 2 2 4 2 tableAB) = [''A'']
   \<and> list_all (\<lambda>r. tableAB (gi r) = Some (2, 2) \<and> 2 \<le> gw r \<and> 2 \<le> gh r)
        (adjustedLayouts (calculateAutoAdjustForNewWidget shrinkExample 2 2 4 2 tableAB))"
proof -
  let ?B = "\<lparr>gx = 6, gy = 0, gw = 2, gh = 4, gi = ''B''\<rparr>"
  let ?A = "\<lparr>gx = 0, gy = 0, gw = 2, gh = 2, gi = ''A''\<rparr>"
  have d: "distinct (map gi resizeExample)" "distinct (map gi shrinkExample)"
    by (simp_all add: resizeExample_def shrinkExample_def)
  have c: "(0::int) \<le> 8" "(0::int) \<le> 4" by simp_all
  have tb: "tableAB ''A'' = Some (2, 2)" "tableAB ''B'' = Some (2, 2)"
    by (simp_all add: tableAB_def)
  have ok1: "canResize (calculateResizeSpace resizeExample ''A'' 0 0 6 4 8 4 tableAB)"
    and in1: "?B \<in> set (resizedLayouts (calculateResizeSpace resizeExample ''A'' 0 0 6 4 8 4 tableAB))"
    by (simp_all add: resizeExample_tableAB)
  have ok2: "canAdd (calculateAutoAdjustForNewWidget shrinkExample 2 2 4 2 tableAB)"
    and in2: "?A \<in> set (adjustedLayouts (calculateAutoAdjustForNewWidget shrinkExample 2 2 4 2 tableAB))"
    by (simp_all add: shrinkExample_tableAB)
  from minimum_size_floor [OF d(1) c(1), of "''A''" 0 0 6 4 4 tableAB,
      THEN conjunct1, rule_format, OF ok1 in1, of 2 2] tb
  have "\<exists>l\<in>set resizeExample. gi l = ''B'' \<and> min (gw l) 2 \<le> gw ?B \<and> min (gh l) 2 \<le> gh ?B"
    by simp
  then have 1: "2 \<le> gw ?B \<and> 2 \<le> gh ?B" by (auto simp: resizeExample_def)
  from minimum_size_floor [OF d(2) c(2), of "''A''" 0 0 6 4 2 tableAB 2 2,
      THEN conjunct2, rule_format, OF ok2 in2, of 2 2] tb
  have "\<exists>l\<in>set shrinkExample. gi l = ''A'' \<and> min (gw l) 2 \<le> gw ?A \<and> min (gh l) 2 \<le> gh ?A"
    by simp
  then have 2: "2 \<le> gw ?A \<and> 2 \<le> gh ?A" by (auto simp: shrinkExample_def)
  from d 1 2 tb show ?thesis
    by (simp add: resizeExample_tableAB shrinkExample_tableAB)
qed

text \<open>
  The claim as stated fails in two ways.  The rect being resized takes the requested size
  even below its minimum: \<open>A(0,0,3,3)\<close> with minimum 2 by 2 is resized to 1 by 1.  And a
  rect that is below its minimum in the input stays so when nothing has to shrink.
\<close>

theorem minimum_size_counterexample:
  "tableAB ''A'' = Some (2, 2)
   \<and> calculateResizeSpace [\<lparr>gx = 0, gy = 0, gw = 3, gh = 3, gi = ''A''\<rparr>] ''A'' 0 0 1 1 12 10 tableAB =
       \<lparr>canResize = True, resizedLayouts = [\<lparr>gx = 0, gy = 0, gw = 1, gh = 1, gi = ''A''\<rparr>],
        movedWidgets = [], shrunkByResize = []\<rparr>
   \<and> calculateAutoAdjustForNewWidget [\<lparr>gx = 0, gy = 0, gw = 1, gh = 1, gi = ''A''\<rparr>] 1 1 5 5 tableAB =
       \<lparr>canAdd = True, adjustedLayouts = [\<lparr>gx = 0, gy = 0, gw = 1, gh = 1, gi = ''A''\<rparr>],
        newWidgetPosition = Some (1, 0), shrunkWidgets = []\<rparr>"
  by code_simp



section \<open>Geometry of valid layouts and the viewport adjustment\<close>

lemma cellsIntersect_iff: "cellsIntersect a b \<longleftrightarrow> (\<exists>row col. hasCell a row col \<and> hasCell b row col)"
proof
  assume c: "cellsIntersect a b"
  then have "hasCell a (max (gy a) (gy b)) (max (gx a) (gx b))
           \<and> hasCell b (max (gy a) (gy b)) (max (gx a) (gx b))"
    by (auto simp: cellsIntersect_def hasCell_def covers_def)
  then show "\<exists>row col. hasCell a row col \<and> hasCell b row col" by blast
next
  assume "\<exists>row col. hasCell a row col \<and> hasCell b row col"
  then show "cellsIntersect a b"
    by (auto simp: cellsIntersect_def hasCell_def covers_def)
qed

lemma cellsIntersect_sym: "cellsIntersect a b = cellsIntersect b a"
  by (auto simp: cellsIntersect_iff)

lemma hasCell_inBounds:
  "inBounds cols maxRows l \<Longrightarrow> hasCell l row col \<Longrightarrow> 0 \<le> row \<and> row < maxRows \<and> 0 \<le> col \<and> col < cols"
  by (auto simp: inBounds_def hasCell_def covers_def)

lemma canFitAt_gridOf:
  assumes "gridOf occ cols maxRows placed"
  shows "canFitAt occ (gx z) (gy z) (gw z) (gh z) \<longleftrightarrow> fitsAmong cols maxRows placed z"
proof -
  have "(\<forall>row col. covers (gx z) (gy z) (gw z) (gh z) row col \<longrightarrow> \<not> occ_grid occ row col)
        \<longleftrightarrow> (\<forall>l\<in>set placed. \<not> cellsIntersect z l)"
    using assms by (auto simp: gridOf_def list_ex_iff cellsIntersect_iff hasCell_def)
  with assms show ?thesis
    by (auto simp: canFitAt_iff fitsAmong_def inBounds_def gridOf_def list_all_iff)
qed

lemma canFitAt_gridOf':
  assumes "gridOf occ cols maxRows placed" "gx z = x" "gy z = y" "gw z = w" "gh z = h"
  shows "canFitAt occ x y w h \<longleftrightarrow> fitsAmong cols maxRows placed z"
  using canFitAt_gridOf [OF assms(1), of z] assms(2-) by simp

lemma markZone_gridOf:
  assumes "gridOf occ cols maxRows placed" "inBounds cols maxRows z"
  shows "gridOf (markZone occ (gx z) (gy z) (gw z) (gh z) cols maxRows True) cols maxRows (z # placed)"
  using assms
  by (auto simp: gridOf_def markZone_def hasCell_def covers_def inBounds_def rowExists_def)

lemma emptyGrid_gridOf: "gridOf (createOccupancyGrid [] cols maxRows ex) cols maxRows []"
  by (simp add: gridOf_def)

lemma createOccupancyGrid_gridOf:
  assumes "\<forall>l\<in>set ls. inBounds cols maxRows l"
  shows "gridOf (createOccupancyGrid ls cols maxRows None) cols maxRows ls"
  using assms hasCell_inBounds
  by (fastforce simp: gridOf_def list_ex_iff hasCell_def)

lemma gridOf_set: "gridOf occ cols maxRows p \<Longrightarrow> set p = set q \<Longrightarrow> gridOf occ cols maxRows q"
  by (simp add: gridOf_def list_ex_iff)

lemma clamp_inBounds:
  "inBounds cols maxRows l \<Longrightarrow>
   clampToViewport (gx l) (gy l) (gw l) (gh l) cols maxRows = (gx l, gy l)"
  by (simp add: clampToViewport_def inBounds_def)

lemma validLayout_mset:
  assumes "mset ls = mset ls'"
  shows "validLayout cols maxRows ls = validLayout cols maxRows ls'"
proof -
  have "mset (map gi ls) = mset (map gi ls')" using assms by simp
  then have "distinct (map gi ls) = distinct (map gi ls')" by (rule mset_eq_imp_distinct_iff)
  moreover have "set ls = set ls'" using assms by (rule mset_eq_setD)
  ultimately show ?thesis by (simp add: validLayout_def)
qed

lemma validLayout_append_fits:
  assumes "validLayout cols maxRows (p @ l # q)"
  shows "fitsAmong cols maxRows p l"
proof -
  from assms have d: "distinct (map gi (p @ l # q))"
    and b: "inBounds cols maxRows l"
    and n: "\<And>a b. a \<in> set (p @ l # q) \<Longrightarrow> b \<in> set (p @ l # q) \<Longrightarrow> gi a \<noteq> gi b \<Longrightarrow> \<not> cellsIntersect a b"
    by (auto simp: validLayout_def)
  have "\<not> cellsIntersect l a" if "a \<in> set p" for a
  proof -
    from d that have "gi l \<noteq> gi a" by auto
    with n [of l a] that show ?thesis by simp
  qed
  with b show ?thesis by (simp add: fitsAmong_def list_all_iff)
qed

lemma adjustStep_fits:
  assumes "gridOf occ cols maxRows p" "fitsAmong cols maxRows p l"
  shows "adjustStep cols maxRows l (adj, occ) =
           (adj @ [l], markZone occ (gx l) (gy l) (gw l) (gh l) cols maxRows True)"
proof -
  from assms(2) have b: "inBounds cols maxRows l" by (simp add: fitsAmong_def)
  have "canFitAt occ (gx l) (gy l) (gw l) (gh l)"
    using canFitAt_gridOf [OF assms(1)] assms(2) by simp
  then show ?thesis
    by (simp add: adjustStep_def clamp_inBounds [OF b])
qed

lemma fold_adjustStep_valid:
  assumes "validLayout cols maxRows (p @ q)" "gridOf occ cols maxRows p"
  shows "fst (fold (adjustStep cols maxRows) q (adj, occ)) = adj @ q"
  using assms
proof (induction q arbitrary: p adj occ)
  case Nil
  then show ?case by simp
next
  case (Cons l q)
  from validLayout_append_fits [OF Cons.prems(1)] have f: "fitsAmong cols maxRows p l" .
  then have b: "inBounds cols maxRows l" by (simp add: fitsAmong_def)
  let ?occ = "markZone occ (gx l) (gy l) (gw l) (gh l) cols maxRows True"
  have g: "gridOf ?occ cols maxRows (p @ [l])"
    using markZone_gridOf [OF Cons.prems(2) b] by (rule gridOf_set) auto
  have v: "validLayout cols maxRows ((p @ [l]) @ q)" using Cons.prems(1) by simp
  from Cons.IH [OF v g, of "adj @ [l]"] show ?case
    by (simp add: adjustStep_fits [OF Cons.prems(2) f])
qed

lemma adjustLayoutsToViewport_valid:
  assumes "validLayout cols maxRows layouts"
  shows "adjustLayoutsToViewport layouts cols maxRows = sortBy byPosition layouts"
proof -
  let ?s = "sortBy byPosition layouts"
  have v: "validLayout cols maxRows ([] @ ?s)"
    using assms validLayout_mset [OF mset_sortBy [of byPosition layouts]] by simp
  obtain adj occ where f: "fold (adjustStep cols maxRows) ?s ([], createOccupancyGrid [] cols maxRows None) = (adj, occ)"
    by (cases "fold (adjustStep cols maxRows) ?s ([], createOccupancyGrid [] cols maxRows None)")
  from fold_adjustStep_valid [OF v emptyGrid_gridOf [of cols maxRows None], of "[]"] f
  have adj: "adj = ?s" by simp
  have "map (\<lambda>layout. let (cx, cy) = clampToViewport (gx layout) (gy layout) (gw layout) (gh layout) cols maxRows
                      in layout\<lparr>gx := cx, gy := cy\<rparr>) ?s = ?s"
  proof (rule map_idI)
    fix l assume "l \<in> set ?s"
    with v have "inBounds cols maxRows l" by (simp add: validLayout_def)
    then show "(let (cx, cy) = clampToViewport (gx l) (gy l) (gw l) (gh l) cols maxRows
                in l\<lparr>gx := cx, gy := cy\<rparr>) = l"
      by (simp add: clamp_inBounds)
  qed
  then show ?thesis by (simp add: adjustLayoutsToViewport_def f adj)
qed

lemma adjustLayoutsToViewport_valid':
  assumes "validLayout cols maxRows layouts"
  shows "validLayout cols maxRows (adjustLayoutsToViewport layouts cols maxRows)"
    and "mset (adjustLayoutsToViewport layouts cols maxRows) = mset layouts"
  using assms validLayout_mset [OF mset_sortBy [of byPosition layouts]]
  by (simp_all add: adjustLayoutsToViewport_valid mset_sortBy)

section \<open>Swap engine: the new positions fit\<close>

lemma findBestPositionNear_SomeD:
  assumes "findBestPositionNear occ tx ty w h cols maxRows = Some (x, y)"
  shows "canFitAt occ x y w h"
proof (cases "canFitAt occ tx ty w h")
  case True
  with assms show ?thesis by (simp add: findBestPositionNear_def)
next
  case False
  let ?body = "\<lambda>distance dy dx.
                    if \<bar>dx\<bar> \<noteq> distance \<and> \<bar>dy\<bar> \<noteq> distance then None
                    else
                      let x = tx + dx; y = ty + dy in
                      if x < 0 \<or> y < 0 \<or> x + w > cols \<or> y + h > maxRows then None
                      else if canFitAt occ x y w h then Some (x, y)
                      else None"
  let ?ring = "firstSome (\<lambda>distance. firstSome (\<lambda>dy. firstSome (?body distance dy)
                    [- distance..distance]) [- distance..distance]) [1..max cols maxRows - 1]"
  show ?thesis
  proof (cases ?ring)
    case None
    with assms False have "findFirstFitPosition occ w h = Some (x, y)"
      by (simp add: findBestPositionNear_def)
    then show ?thesis by (rule findFirstFitPosition_SomeD)
  next
    case (Some p)
    with assms False have r: "?ring = Some (x, y)"
      by (simp add: findBestPositionNear_def)
    from firstSome_Some_mem [OF r] obtain d where
      "firstSome (\<lambda>dy. firstSome (?body d dy) [- d..d]) [- d..d] = Some (x, y)" by blast
    from firstSome_Some_mem [OF this] obtain dy where
      "firstSome (?body d dy) [- d..d] = Some (x, y)" by blast
    from firstSome_Some_mem [OF this] obtain dx where "?body d dy dx = Some (x, y)" by blast
    then show ?thesis by (auto simp: Let_def split: if_splits)
  qed
qed

lemma occupancyWithoutPair_gridOf:
  assumes v: "validLayout cols maxRows ls" and t: "t \<in> set ls"
  shows "gridOf (occupancyWithoutPair ls cols maxRows sid t) cols maxRows
           (filter (\<lambda>l. gi l \<noteq> sid \<and> gi l \<noteq> gi t) ls)"
proof -
  from v have d: "distinct (map gi ls)"
    and b: "\<And>l. l \<in> set ls \<Longrightarrow> inBounds cols maxRows l"
    and n: "\<And>a b. a \<in> set ls \<Longrightarrow> b \<in> set ls \<Longrightarrow> gi a \<noteq> gi b \<Longrightarrow> \<not> cellsIntersect a b"
    by (auto simp: validLayout_def)
  have tz: "(gy t \<le> row \<and> row < min (gy t + gh t) maxRows \<and> gx t \<le> col \<and> col < min (gx t + gw t) cols
             \<and> 0 \<le> row \<and> row < maxRows) = hasCell t row col" for row col
    using b [OF t] by (auto simp: hasCell_def covers_def inBounds_def)
  have "occ_grid (occupancyWithoutPair ls cols maxRows sid t) row col
          = list_ex (\<lambda>l. hasCell l row col) (filter (\<lambda>l. gi l \<noteq> sid \<and> gi l \<noteq> gi t) ls)" for row col
  proof -
    have "occ_grid (occupancyWithoutPair ls cols maxRows sid t) row col
          = (\<not> hasCell t row col \<and> (\<exists>l\<in>set ls. gi l \<noteq> sid \<and> hasCell l row col
                \<and> 0 \<le> row \<and> row < maxRows \<and> 0 \<le> col \<and> col < cols))"
      using tz [of row col]
      by (auto simp: occupancyWithoutPair_def markZone_def rowExists_def hasCell_def)
    also have "\<dots> = (\<exists>l\<in>set ls. gi l \<noteq> sid \<and> gi l \<noteq> gi t \<and> hasCell l row col)"
    proof (intro iffI)
      assume "\<not> hasCell t row col \<and> (\<exists>l\<in>set ls. gi l \<noteq> sid \<and> hasCell l row col
                \<and> 0 \<le> row \<and> row < maxRows \<and> 0 \<le> col \<and> col < cols)"
      then obtain l where l: "l \<in> set ls" "gi l \<noteq> sid" "hasCell l row col" and nt: "\<not> hasCell t row col"
        by blast
      have "gi l \<noteq> gi t"
      proof
        assume "gi l = gi t"
        with d l(1) t have "l = t" by (meson distinct_map inj_onD)
        with l(3) nt show False by simp
      qed
      with l show "\<exists>l\<in>set ls. gi l \<noteq> sid \<and> gi l \<noteq> gi t \<and> hasCell l row col" by blast
    next
      assume "\<exists>l\<in>set ls. gi l \<noteq> sid \<and> gi l \<noteq> gi t \<and> hasCell l row col"
      then obtain l where l: "l \<in> set ls" "gi l \<noteq> sid" "gi l \<noteq> gi t" "hasCell l row col" by blast
      from n [OF l(1) t l(3)] l(4) have "\<not> hasCell t row col" by (auto simp: cellsIntersect_iff)
      moreover from hasCell_inBounds [OF b [OF l(1)] l(4)]
      have "0 \<le> row \<and> row < maxRows \<and> 0 \<le> col \<and> col < cols" .
      ultimately show "\<not> hasCell t row col \<and> (\<exists>l\<in>set ls. gi l \<noteq> sid \<and> hasCell l row col
                \<and> 0 \<le> row \<and> row < maxRows \<and> 0 \<le> col \<and> col < cols)"
        using l by blast
    qed
    finally show ?thesis by (auto simp: list_ex_iff)
  qed
  then show ?thesis
    by (simp add: gridOf_def occupancyWithoutPair_def markZone_def)
qed


text \<open>What every successful branch of the swap establishes about the two new positions.\<close>

lemma swapPositions_fit:
  assumes "swapPositions ls sid s t cols maxRows = Some ((sx, sy), (tx, ty))"
  shows "(canFitAt (occupancyWithoutPair ls cols maxRows sid t) sx sy (gw s) (gh s)
          \<and> canFitAt (markZone (occupancyWithoutPair ls cols maxRows sid t) sx sy (gw s) (gh s)
                        cols maxRows True) tx ty (gw t) (gh t))
       \<or> (canFitAt (occupancyWithoutPair ls cols maxRows sid t) tx ty (gw t) (gh t)
          \<and> canFitAt (markZone (occupancyWithoutPair ls cols maxRows sid t) tx ty (gw t) (gh t)
                        cols maxRows True) sx sy (gw s) (gh s))"
  using assms unfolding swapPositions_def Let_def
  by (auto split: if_splits option.splits dest: findBestPositionNear_SomeD)

lemma fitsAmong_Cons:
  "fitsAmong cols maxRows (a # p) z \<longleftrightarrow> fitsAmong cols maxRows p z \<and> \<not> cellsIntersect z a"
  by (auto simp: fitsAmong_def)

lemma pair_fits:
  assumes g: "gridOf occ cols maxRows others"
      and 1: "canFitAt occ ax ay (gw a) (gh a)"
      and 2: "canFitAt (markZone occ ax ay (gw a) (gh a) cols maxRows True) bx by' (gw b) (gh b)"
  shows "fitsAmong cols maxRows others (a\<lparr>gx := ax, gy := ay\<rparr>)
       \<and> fitsAmong cols maxRows others (b\<lparr>gx := bx, gy := by'\<rparr>)
       \<and> \<not> cellsIntersect (b\<lparr>gx := bx, gy := by'\<rparr>) (a\<lparr>gx := ax, gy := ay\<rparr>)"
proof -
  let ?a = "a\<lparr>gx := ax, gy := ay\<rparr>" and ?b = "b\<lparr>gx := bx, gy := by'\<rparr>"
  from 1 have fa: "fitsAmong cols maxRows others ?a"
    using canFitAt_gridOf' [OF g, of ?a ax ay "gw a" "gh a"] by simp
  then have "inBounds cols maxRows ?a" by (simp add: fitsAmong_def)
  from markZone_gridOf [OF g this]
  have "gridOf (markZone occ ax ay (gw a) (gh a) cols maxRows True) cols maxRows (?a # others)"
    by simp
  from canFitAt_gridOf' [OF this, of ?b bx by' "gw b" "gh b"] 2
  have "fitsAmong cols maxRows (?a # others) ?b" by simp
  with fa show ?thesis by (simp add: fitsAmong_Cons)
qed

lemma swapPositions_fitsAmong:
  assumes v: "validLayout cols maxRows ls" and t: "t \<in> set ls"
      and sw: "swapPositions ls sid s t cols maxRows = Some ((sx, sy), (tx, ty))"
  shows "fitsAmong cols maxRows (filter (\<lambda>l. gi l \<noteq> sid \<and> gi l \<noteq> gi t) ls) (s\<lparr>gx := sx, gy := sy\<rparr>)
       \<and> fitsAmong cols maxRows (filter (\<lambda>l. gi l \<noteq> sid \<and> gi l \<noteq> gi t) ls) (t\<lparr>gx := tx, gy := ty\<rparr>)
       \<and> \<not> cellsIntersect (s\<lparr>gx := sx, gy := sy\<rparr>) (t\<lparr>gx := tx, gy := ty\<rparr>)"
proof -
  note g = occupancyWithoutPair_gridOf [OF v t, of sid]
  from swapPositions_fit [OF sw] show ?thesis
  proof
    assume "canFitAt (occupancyWithoutPair ls cols maxRows sid t) sx sy (gw s) (gh s)
          \<and> canFitAt (markZone (occupancyWithoutPair ls cols maxRows sid t) sx sy (gw s) (gh s)
                        cols maxRows True) tx ty (gw t) (gh t)"
    then show ?thesis
      using pair_fits [OF g, where a = s and ax = sx and ay = sy and b = t and bx = tx and by' = ty]
      by (simp add: cellsIntersect_sym)
  next
    assume "canFitAt (occupancyWithoutPair ls cols maxRows sid t) tx ty (gw t) (gh t)
          \<and> canFitAt (markZone (occupancyWithoutPair ls cols maxRows sid t) tx ty (gw t) (gh t)
                        cols maxRows True) sx sy (gw s) (gh s)"
    then show ?thesis
      using pair_fits [OF g, where a = t and ax = tx and ay = ty and b = s and bx = sx and by' = sy]
      by simp
  qed
qed

text \<open>Moving two rects of a valid layout to positions that fit among the others.\<close>

lemma moved_pair_valid:
  assumes v: "validLayout cols maxRows ls"
      and s: "s \<in> set ls" and t: "t \<in> set ls"
      and fs: "fitsAmong cols maxRows (filter (\<lambda>l. gi l \<noteq> gi s \<and> gi l \<noteq> gi t) ls) (s\<lparr>gx := sx, gy := sy\<rparr>)"
      and ft: "fitsAmong cols maxRows (filter (\<lambda>l. gi l \<noteq> gi s \<and> gi l \<noteq> gi t) ls) (t\<lparr>gx := tx, gy := ty\<rparr>)"
      and st: "\<not> cellsIntersect (s\<lparr>gx := sx, gy := sy\<rparr>) (t\<lparr>gx := tx, gy := ty\<rparr>)"
  shows "validLayout cols maxRows
           (map (\<lambda>l. if gi l = gi s then l\<lparr>gx := sx, gy := sy\<rparr>
                      else if gi l = gi t then l\<lparr>gx := tx, gy := ty\<rparr> else l) ls)"
proof -
  let ?f = "\<lambda>l. if gi l = gi s then l\<lparr>gx := sx, gy := sy\<rparr>
                 else if gi l = gi t then l\<lparr>gx := tx, gy := ty\<rparr> else l"
  let ?s = "s\<lparr>gx := sx, gy := sy\<rparr>" and ?t = "t\<lparr>gx := tx, gy := ty\<rparr>"
  from v have d: "distinct (map gi ls)"
    and b: "\<And>l. l \<in> set ls \<Longrightarrow> inBounds cols maxRows l"
    and n: "\<And>a b. a \<in> set ls \<Longrightarrow> b \<in> set ls \<Longrightarrow> gi a \<noteq> gi b \<Longrightarrow> \<not> cellsIntersect a b"
    by (auto simp: validLayout_def)
  have uniq: "\<And>a b. a \<in> set ls \<Longrightarrow> b \<in> set ls \<Longrightarrow> gi a = gi b \<Longrightarrow> a = b"
    using d by (meson distinct_map inj_onD)
  have fgi: "gi (?f l) = gi l" for l by simp
  have ids: "map gi (map ?f ls) = map gi ls" by (simp add: comp_def)
  have fcase: "?f l = ?s \<or> (gi l \<noteq> gi s \<and> ?f l = ?t) \<or> (gi l \<noteq> gi s \<and> gi l \<noteq> gi t \<and> ?f l = l)"
    if "l \<in> set ls" for l
    using uniq [OF that s] uniq [OF that t] by auto
  have os: "\<not> cellsIntersect ?s l" and ot: "\<not> cellsIntersect ?t l"
    if "l \<in> set ls" "gi l \<noteq> gi s" "gi l \<noteq> gi t" for l
    using fs ft that by (auto simp: fitsAmong_def list_all_iff)
  have inb: "inBounds cols maxRows (?f l)" if "l \<in> set ls" for l
    using fcase [OF that] fs ft b [OF that] by (auto simp: fitsAmong_def)
  have dis: "\<not> cellsIntersect (?f a) (?f c)" if a: "a \<in> set ls" and c: "c \<in> set ls" and ne: "gi a \<noteq> gi c" for a c
  proof -
    consider (as) "gi a = gi s" | (at) "gi a \<noteq> gi s" "gi a = gi t" | (ao) "gi a \<noteq> gi s" "gi a \<noteq> gi t"
      by blast
    then show ?thesis
    proof cases
      case as
      then have fa: "?f a = ?s" using uniq [OF a s] by simp
      from as ne have cs: "gi c \<noteq> gi s" by simp
      show ?thesis
      proof (cases "gi c = gi t")
        case True
        with cs have "?f c = ?t" using uniq [OF c t] by simp
        with fa st show ?thesis by simp
      next
        case False
        with cs have "?f c = c" by simp
        with fa os [OF c cs False] show ?thesis by simp
      qed
    next
      case at
      then have fa: "?f a = ?t" using uniq [OF a t] by simp
      from at ne have ct: "gi c \<noteq> gi t" by simp
      show ?thesis
      proof (cases "gi c = gi s")
        case True
        then have "?f c = ?s" using uniq [OF c s] by simp
        with fa st show ?thesis by (simp add: cellsIntersect_sym)
      next
        case False
        with ct have "?f c = c" by simp
        with fa ot [OF c False ct] show ?thesis by simp
      qed
    next
      case ao
      then have fa: "?f a = a" by simp
      show ?thesis
      proof (cases "gi c = gi s")
        case True
        then have "?f c = ?s" using uniq [OF c s] by simp
        with fa os [OF a ao] show ?thesis by (simp add: cellsIntersect_sym)
      next
        case cs: False
        show ?thesis
        proof (cases "gi c = gi t")
          case True
          with cs have "?f c = ?t" using uniq [OF c t] by simp
          with fa ot [OF a ao] show ?thesis by (simp add: cellsIntersect_sym)
        next
          case False
          with cs have "?f c = c" by simp
          with fa n [OF a c ne] show ?thesis by simp
        qed
      qed
    qed
  qed
  have "distinct (map gi (map ?f ls))" unfolding ids by (rule d)
  moreover have "\<forall>l\<in>set (map ?f ls). inBounds cols maxRows l"
    unfolding set_map using inb by blast
  moreover have "\<forall>a\<in>set (map ?f ls). \<forall>c\<in>set (map ?f ls). gi a \<noteq> gi c \<longrightarrow> \<not> cellsIntersect a c"
  proof (intro ballI impI)
    fix a' c' assume a': "a' \<in> set (map ?f ls)" and c': "c' \<in> set (map ?f ls)"
      and ne: "gi a' \<noteq> gi c'"
    from a' obtain a where a: "a \<in> set ls" "a' = ?f a" unfolding set_map by (rule imageE)
    from c' obtain c where c: "c \<in> set ls" "c' = ?f c" unfolding set_map by (rule imageE)
    from ne have "gi a \<noteq> gi c" unfolding a(2) c(2) fgi .
    from dis [OF a(1) c(1) this] show "\<not> cellsIntersect a' c'" unfolding a(2) c(2) .
  qed
  ultimately show ?thesis unfolding validLayout_def by blast
qed

lemma calculateSwap_SomeD:
  assumes "calculateSwap ls sid tid cols maxRows = Some L1"
  obtains s t sx sy tx ty where
    "s \<in> set ls" "gi s = sid" "t \<in> set ls" "gi t = tid"
    "swapPositions ls sid s t (case cols of Some c \<Rightarrow> c | None \<Rightarrow> 12)
       (case maxRows of Some r \<Rightarrow> r | None \<Rightarrow> 20) = Some ((sx, sy), (tx, ty))"
    "L1 = adjustLayoutsToViewport
            (map (\<lambda>l. if gi l = sid then l\<lparr>gx := sx, gy := sy\<rparr>
                       else if gi l = tid then l\<lparr>gx := tx, gy := ty\<rparr> else l) ls)
            (case cols of Some c \<Rightarrow> c | None \<Rightarrow> 12) (case maxRows of Some r \<Rightarrow> r | None \<Rightarrow> 20)"
proof -
  from assms obtain s where fs: "find (\<lambda>l. gi l = sid) ls = Some s"
    by (cases "find (\<lambda>l. gi l = sid) ls") (simp_all add: calculateSwap_def)
  from assms fs obtain t where ft: "find (\<lambda>l. gi l = tid) ls = Some t"
    by (cases "find (\<lambda>l. gi l = tid) ls") (simp_all add: calculateSwap_def)
  let ?gc = "case cols of Some c \<Rightarrow> c | None \<Rightarrow> 12"
  let ?gr = "case maxRows of Some r \<Rightarrow> r | None \<Rightarrow> 20"
  from assms fs ft obtain p where sp: "swapPositions ls sid s t ?gc ?gr = Some p"
    by (cases "swapPositions ls sid s t ?gc ?gr") (simp_all add: calculateSwap_def Let_def)
  obtain sx sy tx ty where p: "p = ((sx, sy), (tx, ty))" by (metis surj_pair)
  from assms fs ft sp p have
    "L1 = adjustLayoutsToViewport
            (map (\<lambda>l. if gi l = sid then l\<lparr>gx := sx, gy := sy\<rparr>
                       else if gi l = tid then l\<lparr>gx := tx, gy := ty\<rparr> else l) ls) ?gc ?gr"
    by (simp add: calculateSwap_def Let_def)
  with find_Some_mem [OF fs] find_Some_mem [OF ft] sp p that show thesis by blast
qed

lemma calculateSwap_valid:
  assumes v: "validLayout (case cols of Some c \<Rightarrow> c | None \<Rightarrow> 12)
                (case maxRows of Some r \<Rightarrow> r | None \<Rightarrow> 20) ls"
      and sw: "calculateSwap ls sid tid cols maxRows = Some L1"
  shows "validLayout (case cols of Some c \<Rightarrow> c | None \<Rightarrow> 12)
           (case maxRows of Some r \<Rightarrow> r | None \<Rightarrow> 20) L1"
    and "mset (map shape L1) = mset (map shape ls)"
    and "sid \<in> gi ` set ls" and "tid \<in> gi ` set ls"
proof -
  let ?gc = "case cols of Some c \<Rightarrow> c | None \<Rightarrow> 12"
  let ?gr = "case maxRows of Some r \<Rightarrow> r | None \<Rightarrow> 20"
  from sw obtain s t sx sy tx ty where
    s: "s \<in> set ls" "gi s = sid" and t: "t \<in> set ls" "gi t = tid"
    and sp: "swapPositions ls sid s t ?gc ?gr = Some ((sx, sy), (tx, ty))"
    and L1: "L1 = adjustLayoutsToViewport
            (map (\<lambda>l. if gi l = sid then l\<lparr>gx := sx, gy := sy\<rparr>
                       else if gi l = tid then l\<lparr>gx := tx, gy := ty\<rparr> else l) ls) ?gc ?gr"
    by (rule calculateSwap_SomeD)
  let ?new = "map (\<lambda>l. if gi l = sid then l\<lparr>gx := sx, gy := sy\<rparr>
                       else if gi l = tid then l\<lparr>gx := tx, gy := ty\<rparr> else l) ls"
  note fit = swapPositions_fitsAmong [OF v t(1) sp, unfolded t(2)]
  have "validLayout ?gc ?gr ?new"
    using moved_pair_valid [OF v s(1) t(1), where sx = sx and sy = sy and tx = tx and ty = ty,
        unfolded s(2) t(2)] fit
    by blast
  note adj = adjustLayoutsToViewport_valid' [OF this]
  from adj(1) L1 show "validLayout ?gc ?gr L1" by simp
  have "map shape ?new = map shape ls"
    by (induction ls) (simp_all add: shape_def)
  moreover have "mset (map shape L1) = mset (map shape ?new)"
    using adj(2) unfolding L1 by (simp only: mset_map)
  ultimately show "mset (map shape L1) = mset (map shape ls)" by (simp only:)
  from s t show "sid \<in> gi ` set ls" "tid \<in> gi ` set ls" by auto
qed



lemma swapExample_first:
  "calculateSwap swapExample ''A'' ''B'' (Some 12) (Some 10) = Some swapExample1"
  by code_simp

lemma swapExample_second:
  "calculateSwap swapExample1 ''A'' ''B'' (Some 12) (Some 10) = Some swapExample"
  by code_simp

lemma swapExample_valid: "validLayout 12 10 swapExample"
  by (simp add: validLayout_def swapExample_def inBounds_def cellsIntersect_def)

text \<open>
  C4.  Swap round trip on a layout that satisfies the core invariant (unique ids, every
  rect inside the grid, no two rects sharing a cell) on the grid of the swap (\<open>cols\<close> and
  \<open>maxRows\<close> as passed, else 12 and 20; \<open>cols\<close> not negative), for two different ids: if both swaps
  return a layout, then both returned layouts satisfy the core invariant again, the rects
  \<open>A\<close> and \<open>B\<close> of the second one lie inside the grid and share no cell, and each layout
  holds the same ids with the same widths and heights as the input.
\<close>

theorem swap_round_trip:
  assumes "validLayout (case cols of Some c \<Rightarrow> c | None \<Rightarrow> 12)
              (case maxRows of Some r \<Rightarrow> r | None \<Rightarrow> 20) layouts"
      and "sourceId \<noteq> targetId"
      and "calculateSwap layouts sourceId targetId cols maxRows = Some L1"
      and "calculateSwap L1 sourceId targetId cols maxRows = Some L2"
      and "0 \<le> (case cols of Some c \<Rightarrow> c | None \<Rightarrow> 12)"
  shows "validLayout (case cols of Some c \<Rightarrow> c | None \<Rightarrow> 12)
              (case maxRows of Some r \<Rightarrow> r | None \<Rightarrow> 20) L1
       \<and> validLayout (case cols of Some c \<Rightarrow> c | None \<Rightarrow> 12)
              (case maxRows of Some r \<Rightarrow> r | None \<Rightarrow> 20) L2
       \<and> mset (map shape L1) = mset (map shape layouts)
       \<and> mset (map shape L2) = mset (map shape layouts)
       \<and> (\<exists>a\<in>set L2. \<exists>b\<in>set L2. gi a = sourceId \<and> gi b = targetId
             \<and> inBounds (case cols of Some c \<Rightarrow> c | None \<Rightarrow> 12)
                  (case maxRows of Some r \<Rightarrow> r | None \<Rightarrow> 20) a
             \<and> inBounds (case cols of Some c \<Rightarrow> c | None \<Rightarrow> 12)
                  (case maxRows of Some r \<Rightarrow> r | None \<Rightarrow> 20) b
             \<and> \<not> cellsIntersect a b)"
proof -
  let ?gc = "case cols of Some c \<Rightarrow> c | None \<Rightarrow> 12"
  let ?gr = "case maxRows of Some r \<Rightarrow> r | None \<Rightarrow> 20"
  note one = calculateSwap_valid [OF assms(1) assms(3)]
  note two = calculateSwap_valid [OF one(1) assms(4)]
  have ids: "gi ` set L2 = gi ` set L1"
  proof -
    have "set (map shape L2) = set (map shape L1)" using two(2) by (rule mset_eq_setD)
    then have "fst ` set (map shape L2) = fst ` set (map shape L1)" by simp
    then show ?thesis by (simp add: image_image shape_def)
  qed
  from two(3) ids have "sourceId \<in> gi ` set L2" by simp
  then obtain a where a: "a \<in> set L2" "gi a = sourceId" by auto
  from two(4) ids have "targetId \<in> gi ` set L2" by simp
  then obtain b where b: "b \<in> set L2" "gi b = targetId" by auto
  from two(1) a b assms(2)
  have "inBounds ?gc ?gr a \<and> inBounds ?gc ?gr b \<and> \<not> cellsIntersect a b"
    by (auto simp: validLayout_def)
  with a b have "\<exists>a\<in>set L2. \<exists>b\<in>set L2. gi a = sourceId \<and> gi b = targetId
             \<and> inBounds ?gc ?gr a \<and> inBounds ?gc ?gr b \<and> \<not> cellsIntersect a b"
    by blast
  moreover have "mset (map shape L2) = mset (map shape layouts)"
    using one(2) two(2) by (simp only:)
  ultimately show ?thesis using one(1,2) two(1) by blast
qed

theorem swap_round_trip_witness:
  "validLayout 12 10 swapExample
   \<and> calculateSwap swapExample ''A'' ''B'' (Some 12) (Some 10) = Some swapExample1
   \<and> calculateSwap swapExample1 ''A'' ''B'' (Some 12) (Some 10) = Some swapExample
   \<and> validLayout 12 10 swapExample1
   \<and> mset (map shape swapExample1) = mset (map shape swapExample)"
proof -
  have v: "validLayout (case Some 12 of Some c \<Rightarrow> c | None \<Rightarrow> 12)
             (case Some 10 of Some r \<Rightarrow> r | None \<Rightarrow> 20) swapExample"
    using swapExample_valid by simp
  have n: "''A'' \<noteq> ''B''" by simp
  have c: "0 \<le> (case Some (12 :: int) of Some c \<Rightarrow> c | None \<Rightarrow> 12)" by simp
  from swap_round_trip [OF v n swapExample_first swapExample_second c]
  have "validLayout 12 10 swapExample1"
    and "mset (map shape swapExample1) = mset (map shape swapExample)"
    by simp_all
  with swapExample_valid swapExample_first swapExample_second show ?thesis by simp
qed

text \<open>
  Without the invariant on the input the round trip fails.  In \<open>swapBroken\<close> the rect \<open>Y\<close>
  lies below a grid of 3 columns and 1 row.  Both swaps of \<open>A\<close> and \<open>B\<close> return a layout,
  and in the second one \<open>A\<close> and \<open>B\<close> both sit at \<open>(2, 0)\<close>.
\<close>

theorem swap_round_trip_counterexample:
  "calculateSwap swapBroken ''A'' ''B'' (Some 3) (Some 1) = Some swapBroken1
   \<and> calculateSwap swapBroken1 ''A'' ''B'' (Some 3) (Some 1) = Some swapBroken2
   \<and> swapBroken2 ! 3 = \<lparr>gx = 2, gy = 0, gw = 1, gh = 1, gi = ''A''\<rparr>
   \<and> swapBroken2 ! 2 = \<lparr>gx = 2, gy = 0, gw = 1, gh = 1, gi = ''B''\<rparr>
   \<and> cellsIntersect (swapBroken2 ! 3) (swapBroken2 ! 2)"
proof -
  have "calculateSwap swapBroken ''A'' ''B'' (Some 3) (Some 1) = Some swapBroken1"
    by code_simp
  moreover have "calculateSwap swapBroken1 ''A'' ''B'' (Some 3) (Some 1) = Some swapBroken2"
    by code_simp
  ultimately show ?thesis
    by (simp add: swapBroken2_def cellsIntersect_def)
qed

section \<open>Push resolver: the core invariant\<close>

lemma validLayout_filter:
  "validLayout cols maxRows ls \<Longrightarrow> validLayout cols maxRows (filter P ls)"
  by (auto simp: validLayout_def distinct_map_filter)

lemma filter_map_gi:
  assumes "\<And>l. gi (g l) = gi l"
  shows "filter (\<lambda>l. P (gi l)) (map g ls) = map g (filter (\<lambda>l. P (gi l)) ls)"
  by (induction ls) (simp_all add: assms)

text \<open>Replacing one rect of a valid layout by a rect that fits among the others.\<close>

lemma update_one_valid:
  assumes v: "validLayout cols maxRows ls"
      and w: "w \<in> set ls" "gi w = wid"
      and f: "fitsAmong cols maxRows (filter (\<lambda>l. gi l \<noteq> wid) ls) (f w)"
      and fgi: "\<And>l. gi (f l) = gi l"
  shows "validLayout cols maxRows (map (\<lambda>l. if gi l = wid then f l else l) ls)"
proof -
  let ?g = "\<lambda>l. if gi l = wid then f l else l"
  from v have d: "distinct (map gi ls)"
    and b: "\<And>l. l \<in> set ls \<Longrightarrow> inBounds cols maxRows l"
    and n: "\<And>a b. a \<in> set ls \<Longrightarrow> b \<in> set ls \<Longrightarrow> gi a \<noteq> gi b \<Longrightarrow> \<not> cellsIntersect a b"
    by (auto simp: validLayout_def)
  have uniq: "l = w" if "l \<in> set ls" "gi l = wid" for l
    using distinct_ids_eq [OF d that(1) w(1)] that(2) w(2) by simp
  have ids: "map gi (map ?g ls) = map gi ls"
    by (rule map_gi_update) (rule fgi)
  have gcase: "(gi l = wid \<and> ?g l = f w) \<or> (gi l \<noteq> wid \<and> ?g l = l)" if "l \<in> set ls" for l
    using uniq [OF that] by auto
  have ggi: "gi (?g l) = gi l" for l by (simp add: fgi)
  have fw: "inBounds cols maxRows (f w)"
    and fo: "\<And>l. l \<in> set ls \<Longrightarrow> gi l \<noteq> wid \<Longrightarrow> \<not> cellsIntersect (f w) l"
    using f by (auto simp: fitsAmong_def list_all_iff)
  have inb: "inBounds cols maxRows (?g l)" if "l \<in> set ls" for l
    using gcase [OF that] fw b [OF that] by auto
  have dis: "\<not> cellsIntersect (?g a) (?g c)"
    if a: "a \<in> set ls" and c: "c \<in> set ls" and ne: "gi a \<noteq> gi c" for a c
    using gcase [OF a] gcase [OF c] ne fo [OF a] fo [OF c] n [OF a c ne]
    by (auto simp: cellsIntersect_sym)
  show ?thesis
    unfolding validLayout_def
  proof (intro conjI ballI impI)
    show "distinct (map gi (map ?g ls))" using d by (simp only: ids)
  next
    fix l assume "l \<in> set (map ?g ls)"
    then obtain l0 where "l0 \<in> set ls" "l = ?g l0" by auto
    then show "inBounds cols maxRows l" using inb by simp
  next
    fix a c assume "a \<in> set (map ?g ls)" "c \<in> set (map ?g ls)" and ne: "gi a \<noteq> gi c"
    then obtain a0 c0 where a0: "a0 \<in> set ls" "a = ?g a0" and c0: "c0 \<in> set ls" "c = ?g c0"
      by auto
    from ne have "gi a0 \<noteq> gi c0" unfolding a0(2) c0(2) ggi .
    from dis [OF a0(1) c0(1) this] show "\<not> cellsIntersect a c" unfolding a0(2) c0(2) .
  qed
qed

text \<open>Marking more cells as occupied leaves fewer fits.\<close>

lemma canFitAt_markZone_True:
  "canFitAt (markZone occ zx zy zw zh cols maxRows True) x y w h \<Longrightarrow> canFitAt occ x y w h"
  by (auto simp: canFitAt_iff markZone_def split: if_splits)

lemma tryPushInDirection_valid:
  assumes v: "validLayout cols maxRows (filter (\<lambda>l. Some (gi l) \<noteq> ex) ls)"
      and t: "tryPushInDirection ls wid dx dy z cols maxRows ex = Some ls'"
  shows "validLayout cols maxRows (filter (\<lambda>l. Some (gi l) \<noteq> ex) ls')"
proof -
  let ?L = "filter (\<lambda>l. Some (gi l) \<noteq> ex) ls"
  from t obtain widget where fw: "find (\<lambda>l. gi l = wid) ls = Some widget"
    by (auto simp: tryPushInDirection_def split: option.splits)
  let ?nx = "gx widget + dx" and ?ny = "gy widget + dy"
  let ?f = "\<lambda>l. l\<lparr>gx := ?nx, gy := ?ny\<rparr>"
  let ?g = "\<lambda>l. if gi l = wid then ?f l else l"
  let ?others = "filter (\<lambda>l. gi l \<noteq> wid \<and> Some (gi l) \<noteq> ex) ls"
  from t fw have fit: "canFitAt (markZone (createOccupancyGrid ?others cols maxRows None)
                         (gx z) (gy z) (gw z) (gh z) cols maxRows True) ?nx ?ny (gw widget) (gh widget)"
    and ls': "ls' = map ?g ls"
    by (auto simp: tryPushInDirection_def Let_def split: if_splits)
  have oth: "?others = filter (\<lambda>l. gi l \<noteq> wid) ?L" by (simp add: conj_commute)
  have ob: "\<forall>l\<in>set ?others. inBounds cols maxRows l"
    using v by (auto simp: validLayout_def)
  from canFitAt_markZone_True [OF fit]
  have "canFitAt (createOccupancyGrid ?others cols maxRows None) ?nx ?ny (gw widget) (gh widget)" .
  then have fa: "fitsAmong cols maxRows ?others (?f widget)"
    using canFitAt_gridOf' [OF createOccupancyGrid_gridOf [OF ob], of "?f widget" ?nx ?ny "gw widget" "gh widget"]
    by simp
  have filt: "filter (\<lambda>l. Some (gi l) \<noteq> ex) ls' = map ?g ?L"
    unfolding ls' by (rule filter_map_gi) simp
  show ?thesis
  proof (cases "Some wid = ex")
    case True
    then have "map ?g ?L = ?L" by (auto intro!: map_idI)
    with v filt show ?thesis by simp
  next
    case False
    from find_Some_mem [OF fw] False have w: "widget \<in> set ?L" "gi widget = wid" by auto
    from update_one_valid [OF v w, of ?f] fa oth
    show ?thesis unfolding filt by simp
  qed
qed

lemma pushEach_valid:
  assumes "validLayout cols maxRows (filter (\<lambda>l. Some (gi l) \<noteq> ex) wl)"
      and "pushEach ws tw th z cols maxRows ex wl pw = Some (wl', pw')"
  shows "validLayout cols maxRows (filter (\<lambda>l. Some (gi l) \<noteq> ex) wl')"
  using assms
proof (induction ws arbitrary: wl pw)
  case Nil
  then show ?case by simp
next
  case (Cons widget rest)
  from Cons.prems(2) obtain result where
    r: "firstSome (\<lambda>(dx, dy). tryPushInDirection wl (gi widget) dx dy z cols maxRows ex)
          (pushDirections widget tw th) = Some result"
    and p: "pushEach rest tw th z cols maxRows ex result (pw @ [gi widget]) = Some (wl', pw')"
    by (auto split: option.splits)
  from firstSome_Some_mem [OF r] obtain d where
    "(case d of (dx, dy) \<Rightarrow> tryPushInDirection wl (gi widget) dx dy z cols maxRows ex) = Some result"
    by blast
  then obtain dx dy where "tryPushInDirection wl (gi widget) dx dy z cols maxRows ex = Some result"
    by (cases d) auto
  from tryPushInDirection_valid [OF Cons.prems(1) this]
  have "validLayout cols maxRows (filter (\<lambda>l. Some (gi l) \<noteq> ex) result)" .
  from Cons.IH [OF this p] show ?case .
qed

lemma calculatePush_valid:
  assumes v: "validLayout cols maxRows (filter (\<lambda>l. Some (gi l) \<noteq> ex) layouts)"
      and c: "canPush (calculatePush layouts tx ty tw th cols maxRows ex)"
  shows "validLayout cols maxRows
           (filter (\<lambda>l. Some (gi l) \<noteq> ex) (newLayouts (calculatePush layouts tx ty tw th cols maxRows ex)))"
proof (cases "overlappingWidgets layouts \<lparr>gx = tx, gy = ty, gw = tw, gh = th\<rparr> ex = []")
  case True
  with v show ?thesis by (simp add: calculatePush_def)
next
  case False
  with c obtain wl pw where
    p: "pushEach (overlappingWidgets layouts \<lparr>gx = tx, gy = ty, gw = tw, gh = th\<rparr> ex) tw th
          \<lparr>gx = tx, gy = ty, gw = tw, gh = th\<rparr> cols maxRows ex layouts [] = Some (wl, pw)"
    by (auto simp: calculatePush_def Let_def split: option.splits)
  from pushEach_valid [OF v p] False p show ?thesis
    by (simp add: calculatePush_def Let_def)
qed

section \<open>Resize space manager: the core invariant\<close>

lemma cellsIntersect_zonesOverlap:
  "cellsIntersect l (resizedRect rid nb) \<Longrightarrow> zonesOverlap (zoneOf l) nb"
  by (auto simp: cellsIntersect_def zonesOverlap_def zoneOf_def resizedRect_def)

lemma valid_fits_others:
  assumes v: "validLayout cols maxRows ls" and w: "w \<in> set ls"
  shows "fitsAmong cols maxRows (filter (\<lambda>l. gi l \<noteq> gi w) ls) w"
  using assms by (auto simp: validLayout_def fitsAmong_def list_all_iff)

lemma within_fits:
  assumes f: "fitsAmong cols maxRows others cw"
      and sub: "gx cw \<le> gx z" "gy cw \<le> gy z" "gx z + gw z \<le> gx cw + gw cw"
               "gy z + gh z \<le> gy cw + gh cw"
  shows "fitsAmong cols maxRows others z"
proof -
  have "\<not> cellsIntersect z l" if "\<not> cellsIntersect cw l" for l
    using that sub by (auto simp: cellsIntersect_def)
  moreover have "inBounds cols maxRows z" using f sub by (auto simp: fitsAmong_def inBounds_def)
  ultimately show ?thesis using f by (auto simp: fitsAmong_def list_all_iff)
qed

text \<open>Replacing one widget other than the resizing one keeps the invariant of the resize.\<close>

lemma replace_inv:
  assumes inv: "resizeInv rid nb cols maxRows working still"
      and ne: "wid \<noteq> rid"
      and cw: "cw \<in> set working" "gi cw = wid"
      and fgi: "\<And>l. gi (f l) = gi l"
      and fits: "fitsAmong cols maxRows
                   (filter (\<lambda>l. gi l \<noteq> wid) (filter (\<lambda>l. gi l \<noteq> rid) working)) (f cw)"
      and clear: "\<not> cellsIntersect (f cw) (resizedRect rid nb)"
      and still': "\<forall>w\<in>set still. gi w \<noteq> wid \<longrightarrow> gi w \<in> gi ` set still'"
  shows "resizeInv rid nb cols maxRows (map (\<lambda>l. if gi l = wid then f l else l) working) still'"
proof -
  let ?g = "\<lambda>l. if gi l = wid then f l else l"
  let ?L = "filter (\<lambda>l. gi l \<noteq> rid) working"
  from inv have d: "distinct (map gi working)"
    and v: "validLayout cols maxRows ?L"
    and c: "\<And>l. l \<in> set working \<Longrightarrow> gi l \<noteq> rid \<Longrightarrow>
              \<not> cellsIntersect l (resizedRect rid nb) \<or> gi l \<in> gi ` set still"
    by (auto simp: resizeInv_def)
  have ids: "map gi (map ?g working) = map gi working"
    by (rule map_gi_update) (rule fgi)
  have d': "distinct (map gi (map ?g working))" using d by (simp only: ids)
  have filt: "filter (\<lambda>l. gi l \<noteq> rid) (map ?g working) = map ?g ?L"
    by (rule filter_map_gi) (simp add: fgi)
  from cw ne have cwL: "cw \<in> set ?L" by simp
  have v': "validLayout cols maxRows (filter (\<lambda>l. gi l \<noteq> rid) (map ?g working))"
    unfolding filt by (rule update_one_valid [OF v cwL cw(2) fits fgi])
  have c': "\<not> cellsIntersect l' (resizedRect rid nb) \<or> gi l' \<in> gi ` set still'"
    if l': "l' \<in> set (map ?g working)" "gi l' \<noteq> rid" for l'
  proof -
    from l' obtain l where l: "l \<in> set working" "l' = ?g l" by auto
    show ?thesis
    proof (cases "gi l = wid")
      case True
      with distinct_ids_eq [OF d l(1) cw(1)] cw(2) have "l = cw" by simp
      with True l(2) clear show ?thesis by simp
    next
      case False
      with l(2) have eq: "l' = l" by simp
      with c [OF l(1)] l'(2) False still' show ?thesis by auto
    qed
  qed
  from d' v' c' show ?thesis unfolding resizeInv_def by blast
qed

lemma still_inv:
  assumes inv: "resizeInv rid nb cols maxRows working still"
      and none: "\<forall>l\<in>set working. gi l \<noteq> wid"
      and still': "\<forall>w\<in>set still. gi w \<noteq> wid \<longrightarrow> gi w \<in> gi ` set still'"
  shows "resizeInv rid nb cols maxRows working still'"
  using assms unfolding resizeInv_def by (auto 0 3)

lemma moveStep_inv:
  assumes inb: "inBounds cols maxRows (resizedRect rid nb)"
      and inv: "resizeInv rid nb cols maxRows working still"
      and ne: "gi widget \<noteq> rid"
      and sh: "\<forall>l\<in>set working. gi l = gi widget \<longrightarrow> gw l = gw widget \<and> gh l = gh widget"
  shows "resizeInv rid nb cols maxRows
           (fst (moveStep rid nb cols maxRows widget (working, moved, still)))
           (snd (snd (moveStep rid nb cols maxRows widget (working, moved, still))))"
proof -
  let ?others = "filter (\<lambda>l. gi l \<noteq> gi widget \<and> gi l \<noteq> rid) working"
  let ?occ = "markZone (createOccupancyGrid ?others cols maxRows None)
                (gx nb) (gy nb) (gw nb) (gh nb) cols maxRows True"
  let ?R = "resizedRect rid nb"
  from inv have v: "validLayout cols maxRows (filter (\<lambda>l. gi l \<noteq> rid) working)"
    by (simp add: resizeInv_def)
  show ?thesis
  proof (cases "findFirstFitPosition ?occ (gw widget) (gh widget)")
    case None
    then show ?thesis using inv by (simp add: moveStep_def)
  next
    case (Some pos)
    obtain ex ey where pos: "pos = (ex, ey)" by (cases pos)
    let ?f = "\<lambda>l. l\<lparr>gx := ex, gy := ey\<rparr>"
    let ?still' = "filter (\<lambda>w. gi w \<noteq> gi widget) still"
    have res: "moveStep rid nb cols maxRows widget (working, moved, still)
                 = (map (\<lambda>l. if gi l = gi widget then ?f l else l) working,
                    moved @ [gi widget], ?still')"
      using Some pos by (simp add: moveStep_def)
    have st: "\<forall>w\<in>set still. gi w \<noteq> gi widget \<longrightarrow> gi w \<in> gi ` set ?still'" by auto
    show ?thesis
    proof (cases "\<exists>cw\<in>set working. gi cw = gi widget")
      case False
      then have none: "\<forall>l\<in>set working. gi l \<noteq> gi widget" by simp
      then have "map (\<lambda>l. if gi l = gi widget then ?f l else l) working = working"
        by (auto intro!: map_idI)
      with still_inv [OF inv none st] show ?thesis by (simp add: res)
    next
      case True
      then obtain cw where cw: "cw \<in> set working" "gi cw = gi widget" by blast
      with sh have size: "gw cw = gw widget" "gh cw = gh widget" by auto
      have ob: "\<forall>l\<in>set ?others. inBounds cols maxRows l"
        using v by (auto simp: validLayout_def)
      have "gridOf (markZone (createOccupancyGrid ?others cols maxRows None)
                      (gx ?R) (gy ?R) (gw ?R) (gh ?R) cols maxRows True) cols maxRows (?R # ?others)"
        by (rule markZone_gridOf [OF createOccupancyGrid_gridOf [OF ob] inb])
      then have g: "gridOf ?occ cols maxRows (?R # ?others)" by (simp add: resizedRect_def)
      from findFirstFitPosition_SomeD(1) [OF Some [unfolded pos]]
      have "canFitAt ?occ ex ey (gw widget) (gh widget)" .
      then have "fitsAmong cols maxRows (?R # ?others) (?f cw)"
        using canFitAt_gridOf' [OF g, of "?f cw" ex ey "gw widget" "gh widget"] size by simp
      then have fits: "fitsAmong cols maxRows ?others (?f cw)"
        and clear: "\<not> cellsIntersect (?f cw) ?R"
        by (simp_all add: fitsAmong_Cons)
      have oth: "?others = filter (\<lambda>l. gi l \<noteq> gi widget) (filter (\<lambda>l. gi l \<noteq> rid) working)"
        by (simp add: conj_commute)
      from replace_inv [OF inv ne cw, of ?f ?still'] fits clear st oth
      show ?thesis by (simp add: res)
    qed
  qed
qed

lemma moveStep_still:
  "set (snd (snd (moveStep rid nb cols maxRows widget st))) \<subseteq> set (snd (snd st))"
  by (cases st) (auto simp: moveStep_def Let_def split: option.splits)

lemma fold_moveStep_still:
  "set (snd (snd (fold (moveStep rid nb cols maxRows) ws st))) \<subseteq> set (snd (snd st))"
proof (induction ws arbitrary: st)
  case Nil
  then show ?case by simp
next
  case (Cons w ws)
  from Cons.IH [of "moveStep rid nb cols maxRows w st"] moveStep_still [of rid nb cols maxRows w st]
  show ?case by auto
qed

lemma fold_moveStep_inv:
  assumes inb: "inBounds cols maxRows (resizedRect rid nb)"
      and inv: "resizeInv rid nb cols maxRows (fst st) (snd (snd st))"
      and ws: "\<forall>w\<in>set ws. gi w \<noteq> rid
                 \<and> (\<forall>s\<in>set (map shape (fst st)). fst s = gi w \<longrightarrow> snd s = (gw w, gh w))"
  shows "resizeInv rid nb cols maxRows
           (fst (fold (moveStep rid nb cols maxRows) ws st))
           (snd (snd (fold (moveStep rid nb cols maxRows) ws st)))"
  using inv ws
proof (induction ws arbitrary: st)
  case Nil
  then show ?case by simp
next
  case (Cons w ws)
  obtain working moved still where st: "st = (working, moved, still)" by (cases st)
  from Cons.prems(2) have ne: "gi w \<noteq> rid"
    and sh: "\<forall>l\<in>set working. gi l = gi w \<longrightarrow> gw l = gw w \<and> gh l = gh w"
    by (auto simp: st shape_def)
  from moveStep_inv [OF inb _ ne sh, of still moved] Cons.prems(1)
  have 1: "resizeInv rid nb cols maxRows (fst (moveStep rid nb cols maxRows w st))
             (snd (snd (moveStep rid nb cols maxRows w st)))"
    by (simp add: st)
  have 2: "\<forall>w'\<in>set ws. gi w' \<noteq> rid
             \<and> (\<forall>s\<in>set (map shape (fst (moveStep rid nb cols maxRows w st))).
                   fst s = gi w' \<longrightarrow> snd s = (gw w', gh w'))"
    using Cons.prems(2) by (simp only: moveStep_shape) simp
  from Cons.IH [OF 1 2] show ?case by simp
qed

lemma shrink_replace_inv:
  assumes inv: "resizeInv rid nb cols maxRows working (widget # rest)"
      and ne: "gi widget \<noteq> rid"
      and cw: "cw \<in> set working" "gi cw = gi widget"
      and fgi: "\<And>l. gi (f l) = gi l"
      and sub: "gx cw \<le> gx (f cw)" "gy cw \<le> gy (f cw)"
               "gx (f cw) + gw (f cw) \<le> gx cw + gw cw" "gy (f cw) + gh (f cw) \<le> gy cw + gh cw"
      and clear: "\<not> cellsIntersect (f cw) (resizedRect rid nb)"
  shows "resizeInv rid nb cols maxRows (map (\<lambda>l. if gi l = gi widget then f l else l) working) rest"
proof -
  from inv have v: "validLayout cols maxRows (filter (\<lambda>l. gi l \<noteq> rid) working)"
    by (simp add: resizeInv_def)
  from cw ne have "cw \<in> set (filter (\<lambda>l. gi l \<noteq> rid) working)" by simp
  from valid_fits_others [OF v this]
  have "fitsAmong cols maxRows
          (filter (\<lambda>l. gi l \<noteq> gi widget) (filter (\<lambda>l. gi l \<noteq> rid) working)) cw"
    by (simp add: cw(2))
  from within_fits [OF this sub]
  have fits: "fitsAmong cols maxRows
          (filter (\<lambda>l. gi l \<noteq> gi widget) (filter (\<lambda>l. gi l \<noteq> rid) working)) (f cw)" .
  have st: "\<forall>w\<in>set (widget # rest). gi w \<noteq> gi widget \<longrightarrow> gi w \<in> gi ` set rest" by auto
  from replace_inv [OF inv ne cw fgi fits clear st] show ?thesis .
qed

lemma shrinkOne_inv:
  assumes inv: "resizeInv rid nb cols maxRows working (widget # rest)"
      and ne: "gi widget \<noteq> rid"
      and s: "shrinkOne nb mins widget working shrunk = Some (working', shrunk')"
  shows "resizeInv rid nb cols maxRows working' rest"
proof (cases "find (\<lambda>l. gi l = gi widget) working")
  case None
  then have w: "working' = working" using s by (simp add: shrinkOne_def split: prod.splits)
  from None have none: "\<forall>l\<in>set working. gi l \<noteq> gi widget" by (simp add: find_None_iff)
  have st: "\<forall>w\<in>set (widget # rest). gi w \<noteq> gi widget \<longrightarrow> gi w \<in> gi ` set rest" by auto
  from still_inv [OF inv none st] show ?thesis by (simp add: w)
next
  case (Some cw)
  from find_Some_mem [OF Some] have cw: "cw \<in> set working" "gi cw = gi widget" by simp_all
  define oR where "oR = max 0 ((gx nb + gw nb) - gx cw)"
  define oB where "oB = max 0 ((gy nb + gh nb) - gy cw)"
  define oL where "oL = max 0 ((gx cw + gw cw) - gx nb)"
  define oT where "oT = max 0 ((gy cw + gh cw) - gy nb)"
  let ?fR = "\<lambda>l. l\<lparr>gx := gx l + oR, gw := gw l - oR\<rparr>"
  let ?fB = "\<lambda>l. l\<lparr>gy := gy l + oB, gh := gh l - oB\<rparr>"
  let ?fL = "\<lambda>l. l\<lparr>gw := gw l - oL\<rparr>"
  let ?fT = "\<lambda>l. l\<lparr>gh := gh l - oT\<rparr>"
  from s Some consider
      (right) "oR > 0" "working' = map (\<lambda>l. if gi l = gi widget then ?fR l else l) working"
    | (bottom) "oB > 0" "working' = map (\<lambda>l. if gi l = gi widget then ?fB l else l) working"
    | (left) "oL > 0" "working' = map (\<lambda>l. if gi l = gi widget then ?fL l else l) working"
    | (top) "oT > 0" "working' = map (\<lambda>l. if gi l = gi widget then ?fT l else l) working"
    unfolding shrinkOne_def Let_def oR_def oB_def oL_def oT_def
    by (auto split: prod.splits if_splits)
  then show ?thesis
  proof cases
    case right
    have "resizeInv rid nb cols maxRows (map (\<lambda>l. if gi l = gi widget then ?fR l else l) working) rest"
      using right(1)
      by (intro shrink_replace_inv [OF inv ne cw])
         (auto simp: oR_def cellsIntersect_def resizedRect_def)
    then show ?thesis by (simp only: right(2))
  next
    case bottom
    have "resizeInv rid nb cols maxRows (map (\<lambda>l. if gi l = gi widget then ?fB l else l) working) rest"
      using bottom(1)
      by (intro shrink_replace_inv [OF inv ne cw])
         (auto simp: oB_def cellsIntersect_def resizedRect_def)
    then show ?thesis by (simp only: bottom(2))
  next
    case left
    have "resizeInv rid nb cols maxRows (map (\<lambda>l. if gi l = gi widget then ?fL l else l) working) rest"
      using left(1)
      by (intro shrink_replace_inv [OF inv ne cw])
         (auto simp: oL_def cellsIntersect_def resizedRect_def)
    then show ?thesis by (simp only: left(2))
  next
    case top
    have "resizeInv rid nb cols maxRows (map (\<lambda>l. if gi l = gi widget then ?fT l else l) working) rest"
      using top(1)
      by (intro shrink_replace_inv [OF inv ne cw])
         (auto simp: oT_def cellsIntersect_def resizedRect_def)
    then show ?thesis by (simp only: top(2))
  qed
qed

lemma shrinkEach_inv:
  assumes "resizeInv rid nb cols maxRows working ws"
      and "\<forall>w\<in>set ws. gi w \<noteq> rid"
      and "shrinkEach ws nb mins working shrunk = Some (working', shrunk')"
  shows "resizeInv rid nb cols maxRows working' []"
  using assms
proof (induction ws arbitrary: working shrunk)
  case Nil
  then show ?case by simp
next
  case (Cons widget rest)
  from Cons.prems(3) obtain w1 s1 where
    1: "shrinkOne nb mins widget working shrunk = Some (w1, s1)"
    and 2: "shrinkEach rest nb mins w1 s1 = Some (working', shrunk')"
    by (auto split: option.splits)
  from Cons.prems(2) have ne: "gi widget \<noteq> rid" and r: "\<forall>w\<in>set rest. gi w \<noteq> rid" by simp_all
  from shrinkOne_inv [OF Cons.prems(1) ne 1] have "resizeInv rid nb cols maxRows w1 rest" .
  from Cons.IH [OF this r 2] show ?case .
qed

lemma resizeInv_still_set:
  "resizeInv rid nb cols maxRows working still \<Longrightarrow> set still = set still' \<Longrightarrow>
   resizeInv rid nb cols maxRows working still'"
  by (simp add: resizeInv_def)

lemma applyResize_valid:
  assumes inb: "inBounds cols maxRows (resizedRect rid \<lparr>gx = nx, gy = ny, gw = nw, gh = nh\<rparr>)"
      and inv: "resizeInv rid \<lparr>gx = nx, gy = ny, gw = nw, gh = nh\<rparr> cols maxRows working []"
  shows "validLayout cols maxRows (applyResize rid nx ny nw nh working)"
proof -
  let ?R = "resizedRect rid \<lparr>gx = nx, gy = ny, gw = nw, gh = nh\<rparr>"
  let ?g = "\<lambda>l. if gi l = rid then l\<lparr>gx := nx, gy := ny, gw := nw, gh := nh\<rparr> else l"
  from inv have d: "distinct (map gi working)"
    and v: "validLayout cols maxRows (filter (\<lambda>l. gi l \<noteq> rid) working)"
    and c: "\<And>l. l \<in> set working \<Longrightarrow> gi l \<noteq> rid \<Longrightarrow> \<not> cellsIntersect l ?R"
    by (auto simp: resizeInv_def)
  from v have b: "\<And>l. l \<in> set working \<Longrightarrow> gi l \<noteq> rid \<Longrightarrow> inBounds cols maxRows l"
    and n: "\<And>a b. a \<in> set working \<Longrightarrow> b \<in> set working \<Longrightarrow> gi a \<noteq> rid \<Longrightarrow> gi b \<noteq> rid
              \<Longrightarrow> gi a \<noteq> gi b \<Longrightarrow> \<not> cellsIntersect a b"
    by (auto simp: validLayout_def)
  have ids: "map gi (map ?g working) = map gi working"
    by (rule map_gi_update) simp
  have ggi: "gi (?g l) = gi l" for l by simp
  have inb': "inBounds cols maxRows (?g l)" if "l \<in> set working" for l
    using b [OF that] inb by (auto simp: inBounds_def resizedRect_def)
  have dis: "\<not> cellsIntersect (?g a) (?g e)"
    if a: "a \<in> set working" and e: "e \<in> set working" and ne: "gi a \<noteq> gi e" for a e
  proof -
    consider "gi a = rid" "gi e \<noteq> rid" | "gi a \<noteq> rid" "gi e = rid" | "gi a \<noteq> rid" "gi e \<noteq> rid"
      using ne by auto
    then show ?thesis
    proof cases
      case 1
      with c [OF e] show ?thesis by (auto simp: cellsIntersect_def resizedRect_def)
    next
      case 2
      with c [OF a] show ?thesis by (auto simp: cellsIntersect_def resizedRect_def)
    next
      case 3
      with n [OF a e _ _ ne] show ?thesis by simp
    qed
  qed
  show ?thesis
    unfolding validLayout_def applyResize_def
  proof (intro conjI ballI impI)
    show "distinct (map gi (map ?g working))" using d by (simp only: ids)
  next
    fix l assume "l \<in> set (map ?g working)"
    then obtain l0 where "l0 \<in> set working" "l = ?g l0" by auto
    then show "inBounds cols maxRows l" using inb' by simp
  next
    fix a e assume "a \<in> set (map ?g working)" "e \<in> set (map ?g working)" and ne: "gi a \<noteq> gi e"
    then obtain a0 e0 where a0: "a0 \<in> set working" "a = ?g a0" and e0: "e0 \<in> set working" "e = ?g e0"
      by auto
    from ne have "gi a0 \<noteq> gi e0" unfolding a0(2) e0(2) ggi .
    from dis [OF a0(1) e0(1) this] show "\<not> cellsIntersect a e" unfolding a0(2) e0(2) .
  qed
qed

lemma resizeInv_initial:
  assumes v: "validLayout cols maxRows layouts"
  shows "resizeInv rid nb cols maxRows layouts (affectedWidgets layouts rid nb)"
proof -
  have "\<not> cellsIntersect l (resizedRect rid nb) \<or> gi l \<in> gi ` set (affectedWidgets layouts rid nb)"
    if "l \<in> set layouts" "gi l \<noteq> rid" for l
    using that cellsIntersect_zonesOverlap [of l rid nb]
    by (auto simp: affectedWidgets_def)
  with v validLayout_filter [OF v, of "\<lambda>l. gi l \<noteq> rid"] show ?thesis
    by (auto simp: resizeInv_def validLayout_def)
qed

lemma calculateResizeSpace_valid:
  assumes v: "validLayout cols maxRows layouts"
      and ok: "canResize (calculateResizeSpace layouts rid nx ny nw nh cols maxRows mins)"
  shows "validLayout cols maxRows
           (resizedLayouts (calculateResizeSpace layouts rid nx ny nw nh cols maxRows mins))"
proof -
  let ?nb = "\<lparr>gx = nx, gy = ny, gw = nw, gh = nh\<rparr>"
  let ?aff = "affectedWidgets layouts rid ?nb"
  from calculateResizeSpace_success [OF ok]
  have inb: "inBounds cols maxRows (resizedRect rid ?nb)"
    by (simp add: inBounds_def resizedRect_def)
  have i0: "resizeInv rid ?nb cols maxRows layouts ?aff" using v by (rule resizeInv_initial)
  have "\<exists>ws. resizeInv rid ?nb cols maxRows ws [] \<and>
          resizedLayouts (calculateResizeSpace layouts rid nx ny nw nh cols maxRows mins)
            = applyResize rid nx ny nw nh ws"
    using calculateResizeSpace_success [OF ok]
  proof (elim conjE disjE exE)
    assume "?aff = []"
      and "calculateResizeSpace layouts rid nx ny nw nh cols maxRows mins =
              \<lparr>canResize = True, resizedLayouts = applyResize rid nx ny nw nh layouts,
               movedWidgets = [], shrunkByResize = []\<rparr>"
    with i0 show ?thesis by auto
  next
    fix ml mv still w' s'
    assume fm: "fold (moveStep rid ?nb cols maxRows) ?aff (layouts, [], ?aff) = (ml, mv, still)"
      and sh: "(if still \<noteq> [] then shrinkEach (sortBy byAreaDesc still) ?nb mins ml []
                else Some (ml, [])) = Some (w', s')"
      and res: "calculateResizeSpace layouts rid nx ny nw nh cols maxRows mins =
                \<lparr>canResize = True, resizedLayouts = applyResize rid nx ny nw nh w',
                 movedWidgets = mv, shrunkByResize = s'\<rparr>"
    from v have d: "distinct (map gi layouts)" by (simp add: validLayout_def)
    have ws: "\<forall>w\<in>set ?aff. gi w \<noteq> rid
                \<and> (\<forall>s\<in>set (map shape (fst (layouts, [] :: string list, ?aff))).
                      fst s = gi w \<longrightarrow> snd s = (gw w, gh w))"
    proof (intro ballI conjI impI)
      fix w assume w: "w \<in> set ?aff"
      then show "gi w \<noteq> rid" by (auto simp: affectedWidgets_def split: if_splits)
      fix s assume s: "s \<in> set (map shape (fst (layouts, [] :: string list, ?aff)))" "fst s = gi w"
      then obtain l where l: "l \<in> set layouts" "s = shape l" by auto
      from w have "w \<in> set layouts" by (simp add: affectedWidgets_def)
      from distinct_ids_eq [OF d l(1) this] s(2) l(2) have "l = w" by (simp add: shape_def)
      with l(2) show "snd s = (gw w, gh w)" by (simp add: shape_def)
    qed
    have i0': "resizeInv rid ?nb cols maxRows (fst (layouts, [] :: string list, ?aff))
                 (snd (snd (layouts, [] :: string list, ?aff)))"
      using i0 by simp
    from fold_moveStep_inv [OF inb i0' ws] fm
    have i1: "resizeInv rid ?nb cols maxRows ml still" by simp
    from fold_moveStep_still [of rid ?nb cols maxRows ?aff "(layouts, [], ?aff)"] fm
    have sub: "set still \<subseteq> set ?aff" by simp
    have "resizeInv rid ?nb cols maxRows w' []"
    proof (cases "still \<noteq> []")
      case True
      with sh have e: "shrinkEach (sortBy byAreaDesc still) ?nb mins ml [] = Some (w', s')" by simp
      have i2: "resizeInv rid ?nb cols maxRows ml (sortBy byAreaDesc still)"
        using i1 by (rule resizeInv_still_set) (simp add: set_sortBy)
      have "\<forall>w\<in>set (sortBy byAreaDesc still). gi w \<noteq> rid"
        using sub by (auto simp: set_sortBy affectedWidgets_def split: if_splits)
      from shrinkEach_inv [OF i2 this e] show ?thesis .
    next
      case False
      with sh i1 show ?thesis by simp
    qed
    with res show ?thesis by auto
  qed
  then obtain ws where ws: "resizeInv rid ?nb cols maxRows ws []"
    "resizedLayouts (calculateResizeSpace layouts rid nx ny nw nh cols maxRows mins)
       = applyResize rid nx ny nw nh ws"
    by blast
  from applyResize_valid [OF inb ws(1)] show ?thesis by (simp only: ws(2))
qed

section \<open>The core invariant on every returned layout\<close>

lemma calculateMultiSwap_valid:
  assumes "validLayout (case cols of Some c \<Rightarrow> c | None \<Rightarrow> 25)
             (case maxRows of Some r \<Rightarrow> r | None \<Rightarrow> 20) (applyPreview layouts preview)"
  shows "validLayout (case cols of Some c \<Rightarrow> c | None \<Rightarrow> 25)
             (case maxRows of Some r \<Rightarrow> r | None \<Rightarrow> 20)
             (calculateMultiSwap layouts preview cols maxRows)"
  using adjustLayoutsToViewport_valid'(1) [OF assms] by (simp add: calculateMultiSwap_def)

lemma swapExample_push: "canPush (calculatePush swapExample 0 0 4 4 12 10 None)"
  by code_simp

lemma swapExample_resize:
  "canResize (calculateResizeSpace swapExample ''A'' 0 0 9 4 12 10 Map.empty)"
  by code_simp

lemma swapExample_preview:
  "applyPreview swapExample swapExamplePreview
   = [\<lparr>gx = 8, gy = 0, gw = 4, gh = 4, gi = ''A''\<rparr>,
      \<lparr>gx = 0, gy = 0, gw = 2, gh = 2, gi = ''B''\<rparr>]"
  by code_simp

lemma swapExample_preview_valid:
  "validLayout 12 10 (applyPreview swapExample swapExamplePreview)"
  by (simp add: swapExample_preview validLayout_def inBounds_def cellsIntersect_def)

text \<open>
  C1.  The core invariant (unique ids, every rect inside the grid, no two rects sharing a
  cell) is kept by four of the five operations when the input layout satisfies it, on a
  grid with \<open>cols\<close> not negative and with \<open>cols\<close> and \<open>maxRows\<close> passed to the swaps:
  a successful \<open>calculatePush\<close> returns a layout that satisfies the invariant once the
  rect carrying \<open>excludeId\<close> is left out (the whole layout when no id is excluded);
  a successful \<open>calculateResizeSpace\<close> returns a layout that satisfies it;
  a non-null result of \<open>calculateSwap\<close> satisfies it;
  and \<open>calculateMultiSwap\<close> returns a layout that satisfies it whenever the layout with
  the positions of the preview applied does.
\<close>

theorem core_invariant_preserved:
  assumes "validLayout cols maxRows layouts" and "0 \<le> cols"
  shows "(canPush (calculatePush layouts targetX targetY targetW targetH cols maxRows excludeId) \<longrightarrow>
            validLayout cols maxRows
              (filter (\<lambda>l. Some (gi l) \<noteq> excludeId)
                 (newLayouts (calculatePush layouts targetX targetY targetW targetH cols maxRows
                                excludeId))))
       \<and> (canResize (calculateResizeSpace layouts resizingId newX newY newW newH cols maxRows
                        widgetMinSizes) \<longrightarrow>
            validLayout cols maxRows
              (resizedLayouts (calculateResizeSpace layouts resizingId newX newY newW newH cols
                                 maxRows widgetMinSizes)))
       \<and> (calculateSwap layouts sourceId targetId (Some cols) (Some maxRows) = Some swapped \<longrightarrow>
            validLayout cols maxRows swapped)
       \<and> (validLayout cols maxRows (applyPreview layouts multiSwapPreview) \<longrightarrow>
            validLayout cols maxRows
              (calculateMultiSwap layouts multiSwapPreview (Some cols) (Some maxRows)))"
proof (intro conjI impI)
  assume "canPush (calculatePush layouts targetX targetY targetW targetH cols maxRows excludeId)"
  with validLayout_filter [OF assms(1)]
  show "validLayout cols maxRows
          (filter (\<lambda>l. Some (gi l) \<noteq> excludeId)
             (newLayouts (calculatePush layouts targetX targetY targetW targetH cols maxRows
                            excludeId)))"
    by (rule calculatePush_valid)
next
  assume "canResize (calculateResizeSpace layouts resizingId newX newY newW newH cols maxRows
                       widgetMinSizes)"
  with assms(1)
  show "validLayout cols maxRows
          (resizedLayouts (calculateResizeSpace layouts resizingId newX newY newW newH cols
                             maxRows widgetMinSizes))"
    by (rule calculateResizeSpace_valid)
next
  assume s: "calculateSwap layouts sourceId targetId (Some cols) (Some maxRows) = Some swapped"
  have v: "validLayout (case Some cols of Some c \<Rightarrow> c | None \<Rightarrow> 12)
             (case Some maxRows of Some r \<Rightarrow> r | None \<Rightarrow> 20) layouts"
    using assms(1) by simp
  from calculateSwap_valid(1) [OF v s] show "validLayout cols maxRows swapped" by simp
next
  assume "validLayout cols maxRows (applyPreview layouts multiSwapPreview)"
  then have "validLayout (case Some cols of Some c \<Rightarrow> c | None \<Rightarrow> 25)
               (case Some maxRows of Some r \<Rightarrow> r | None \<Rightarrow> 20)
               (applyPreview layouts multiSwapPreview)"
    by simp
  from calculateMultiSwap_valid [OF this]
  show "validLayout cols maxRows
          (calculateMultiSwap layouts multiSwapPreview (Some cols) (Some maxRows))"
    by simp
qed

theorem core_invariant_preserved_witness:
  "validLayout 12 10 swapExample
   \<and> canPush (calculatePush swapExample 0 0 4 4 12 10 None)
   \<and> validLayout 12 10
        (filter (\<lambda>l. Some (gi l) \<noteq> None) (newLayouts (calculatePush swapExample 0 0 4 4 12 10 None)))
   \<and> canResize (calculateResizeSpace swapExample ''A'' 0 0 9 4 12 10 Map.empty)
   \<and> validLayout 12 10
        (resizedLayouts (calculateResizeSpace swapExample ''A'' 0 0 9 4 12 10 Map.empty))
   \<and> calculateSwap swapExample ''A'' ''B'' (Some 12) (Some 10) = Some swapExample1
   \<and> validLayout 12 10 swapExample1
   \<and> validLayout 12 10 (applyPreview swapExample swapExamplePreview)
   \<and> validLayout 12 10 (calculateMultiSwap swapExample swapExamplePreview (Some 12) (Some 10))"
proof -
  have c: "(0 :: int) \<le> 12" by simp
  note t = core_invariant_preserved [OF swapExample_valid c,
             where targetX = 0 and targetY = 0 and targetW = 4 and targetH = 4
               and excludeId = None
               and resizingId = "''A''" and newX = 0 and newY = 0 and newW = 9 and newH = 4
               and widgetMinSizes = Map.empty
               and sourceId = "''A''" and targetId = "''B''" and swapped = swapExample1
               and multiSwapPreview = swapExamplePreview]
  from t swapExample_push
  have 1: "validLayout 12 10
        (filter (\<lambda>l. Some (gi l) \<noteq> None) (newLayouts (calculatePush swapExample 0 0 4 4 12 10 None)))"
    by blast
  from t swapExample_resize
  have 2: "validLayout 12 10
        (resizedLayouts (calculateResizeSpace swapExample ''A'' 0 0 9 4 12 10 Map.empty))"
    by blast
  from t swapExample_first have 3: "validLayout 12 10 swapExample1" by blast
  from t swapExample_preview_valid
  have 4: "validLayout 12 10 (calculateMultiSwap swapExample swapExamplePreview (Some 12) (Some 10))"
    by blast
  from swapExample_valid swapExample_push 1 swapExample_resize 2 swapExample_first 3
    swapExample_preview_valid 4
  show ?thesis by blast
qed

text \<open>
  The fifth operation breaks the invariant on a layout that satisfies it.  On the pinwheel,
  with 3 columns and 3 rows, no 1 by 2 widget fits; the repack of phase 2 cannot place
  \<open>D\<close> and keeps it where it was, under the new position of \<open>B\<close>; the controller finds
  room at \<open>(2, 1)\<close> and returns \<open>canAdd = true\<close> with \<open>B\<close> and \<open>D\<close> both on the cell in
  column 1 of row 0.  And \<open>calculatePush\<close> with an excluded id pushes \<open>A\<close> onto the
  excluded rect \<open>E\<close>.
\<close>

theorem core_invariant_counterexample:
  "validLayout 3 3 pinwheel
   \<and> calculateAutoAdjustForNewWidget pinwheel 1 2 3 3 Map.empty =
       \<lparr>canAdd = True, adjustedLayouts = pinwheelRepacked,
        newWidgetPosition = Some (2, 1), shrunkWidgets = []\<rparr>
   \<and> pinwheelRepacked ! 1 = \<lparr>gx = 1, gy = 0, gw = 1, gh = 2, gi = ''B''\<rparr>
   \<and> pinwheelRepacked ! 3 = \<lparr>gx = 1, gy = 0, gw = 2, gh = 1, gi = ''D''\<rparr>
   \<and> cellsIntersect (pinwheelRepacked ! 1) (pinwheelRepacked ! 3)
   \<and> \<not> validLayout 3 3 pinwheelRepacked
   \<and> validLayout 6 12 columnExample
   \<and> calculatePush columnExample 0 0 6 6 6 12 (Some ''E'') =
       \<lparr>canPush = True,
        newLayouts = [rectA\<lparr>gy := 6\<rparr>, \<lparr>gx = 0, gy = 6, gw = 6, gh = 6, gi = ''E''\<rparr>],
        pushedWidgets = [''A'']\<rparr>
   \<and> cellsIntersect (rectA\<lparr>gy := 6\<rparr>) \<lparr>gx = 0, gy = 6, gw = 6, gh = 6, gi = ''E''\<rparr>"
proof -
  have 1: "validLayout 3 3 pinwheel"
    by (simp add: validLayout_def pinwheel_def inBounds_def cellsIntersect_def)
  have 2: "calculateAutoAdjustForNewWidget pinwheel 1 2 3 3 Map.empty =
       \<lparr>canAdd = True, adjustedLayouts = pinwheelRepacked,
        newWidgetPosition = Some (2, 1), shrunkWidgets = []\<rparr>"
    by code_simp
  have 3: "cellsIntersect (pinwheelRepacked ! 1) (pinwheelRepacked ! 3)"
    by (simp add: pinwheelRepacked_def cellsIntersect_def)
  have 4: "\<not> validLayout 3 3 pinwheelRepacked"
    by (simp add: validLayout_def pinwheelRepacked_def cellsIntersect_def)
  have 5: "validLayout 6 12 columnExample"
    by (simp add: validLayout_def columnExample_def rectA_def inBounds_def cellsIntersect_def)
  have 6: "calculatePush columnExample 0 0 6 6 6 12 (Some ''E'') =
       \<lparr>canPush = True,
        newLayouts = [rectA\<lparr>gy := 6\<rparr>, \<lparr>gx = 0, gy = 6, gw = 6, gh = 6, gi = ''E''\<rparr>],
        pushedWidgets = [''A'']\<rparr>"
    by code_simp
  have 7: "cellsIntersect (rectA\<lparr>gy := 6\<rparr>) \<lparr>gx = 0, gy = 6, gw = 6, gh = 6, gi = ''E''\<rparr>"
    by (simp add: rectA_def cellsIntersect_def)
  from 1 2 3 4 5 6 7 show ?thesis by (simp add: pinwheelRepacked_def)
qed

(*THEOREMS*)

end
